theory Spec2Isabelle
  imports Complex_Main "HOL-Library.Sublist" "HOL-Library.AList"
    "HOL-Library.Char_ord" "HOL-Library.List_Lexorder"
begin

section \<open>Strings and paths\<close>

text \<open>
  The program is \<^verbatim>\<open>admin_util.py\<close>. Its strings are modelled as \<^typ>\<open>string\<close>; the
  only characters the code inspects are \<^verbatim>\<open>/\<close> and \<^verbatim>\<open>.\<close>, which are single bytes that
  never occur inside a multi-byte UTF-8 sequence, so bytes and code points agree on
  everything below. Paths follow \<^verbatim>\<open>posixpath\<close> (separator \<^verbatim>\<open>/\<close>, no alternative
  separator).
\<close>

text \<open>\<^verbatim>\<open>s.strip(c)\<close> for a one-character argument: drop every leading and trailing \<open>c\<close>.\<close>

definition strip :: "char \<Rightarrow> string \<Rightarrow> string" where
  "strip c s = rev (dropWhile (\<lambda>x. x = c) (rev (dropWhile (\<lambda>x. x = c) s)))"

text \<open>\<^verbatim>\<open>p.rfind(c)\<close>: the highest index holding \<open>c\<close>, or \<open>-1\<close>.\<close>

definition rfind :: "string \<Rightarrow> char \<Rightarrow> int" where
  "rfind p c =
     (if c \<in> set p then int (length p) - 1 - int (length (takeWhile (\<lambda>x. x \<noteq> c) (rev p)))
      else - 1)"

text \<open>
  \<^verbatim>\<open>genericpath._splitext(p, '/', None, '.')\<close>:
  \<^verbatim>\<open>
    sepIndex = p.rfind(sep)
    dotIndex = p.rfind(extsep)
    if dotIndex > sepIndex:
        # skip all leading dots
        filenameIndex = sepIndex + 1
        while filenameIndex < dotIndex:
            if p[filenameIndex:filenameIndex+1] != extsep:
                return p[:dotIndex], p[dotIndex:]
            filenameIndex += 1
    return p, p[:0]
  \<close>
\<close>

function splitext_loop :: "string \<Rightarrow> nat \<Rightarrow> nat \<Rightarrow> string \<times> string" where
  "splitext_loop p filenameIndex dotIndex =
     (if filenameIndex < dotIndex then
        (if take 1 (drop filenameIndex p) \<noteq> ''.'' then (take dotIndex p, drop dotIndex p)
         else splitext_loop p (filenameIndex + 1) dotIndex)
      else (p, []))"
  by pat_completeness auto
termination
  by (relation "measure (\<lambda>(p, filenameIndex, dotIndex). dotIndex - filenameIndex)") auto

declare splitext_loop.simps [simp del]

definition splitext :: "string \<Rightarrow> string \<times> string" where
  "splitext p =
     (let sepIndex = rfind p CHR ''/'';
          dotIndex = rfind p CHR ''.''
      in if dotIndex > sepIndex then splitext_loop p (nat (sepIndex + 1)) (nat dotIndex)
         else (p, []))"

text \<open>\<^verbatim>\<open>os.path.basename(p)\<close>: \<^verbatim>\<open>i = p.rfind('/') + 1; return p[i:]\<close>.\<close>

definition basename :: "string \<Rightarrow> string" where
  "basename p = drop (nat (rfind p CHR ''/'' + 1)) p"

section \<open>Content types\<close>

definition content_type_map :: "(string \<times> string) list" where
  "content_type_map =
     [(''html'', ''text/html''),
      (''csv'', ''text/csv''),
      (''txt'', ''text/plain''),
      (''xlsx'', ''application/vnd.openxmlformats-officedocument.spreadsheetml.sheet''),
      (''pkl'', ''application/octet-stream'')]"

text \<open>\<^verbatim>\<open>content_type_map.get(ext, 'application/octet-stream')\<close>.\<close>

definition get_content_type :: "string \<Rightarrow> string" where
  "get_content_type ext =
     (case map_of content_type_map ext of Some t \<Rightarrow> t | None \<Rightarrow> ''application/octet-stream'')"

definition content_type :: "string \<Rightarrow> string" where
  "content_type file_name =
     (let ext = strip CHR ''.'' (snd (splitext file_name)) in get_content_type ext)"

text \<open>
  The extension as the specification words it: the substring after the last \<^verbatim>\<open>.\<close> in the
  final path segment, empty if the segment has no \<^verbatim>\<open>.\<close>.
\<close>

definition after_last :: "char \<Rightarrow> string \<Rightarrow> string" where
  "after_last c s = rev (takeWhile (\<lambda>x. x \<noteq> c) (rev s))"

definition before_last :: "char \<Rightarrow> string \<Rightarrow> string" where
  "before_last c s = rev (drop 1 (dropWhile (\<lambda>x. x \<noteq> c) (rev s)))"

definition spec_extension :: "string \<Rightarrow> string" where
  "spec_extension f =
     (let seg = after_last CHR ''/'' f
      in if CHR ''.'' \<in> set seg then after_last CHR ''.'' seg else [])"

text \<open>
  The extension the code extracts: as above, but only when the last \<^verbatim>\<open>.\<close> of the segment
  has a character other than \<^verbatim>\<open>.\<close> somewhere before it in the segment.
\<close>

definition stem_extension :: "string \<Rightarrow> string" where
  "stem_extension f =
     (let seg = after_last CHR ''/'' f
      in if CHR ''.'' \<in> set seg \<and> dropWhile (\<lambda>x. x = CHR ''.'') (before_last CHR ''.'' seg) \<noteq> []
         then after_last CHR ''.'' seg else [])"

section \<open>Numeric sanitising\<close>

text \<open>
  Python values, as far as \<^verbatim>\<open>chg_nonnum\<close> distinguishes them. Of a float only its class
  matters here (\<^verbatim>\<open>math.isnan\<close>), so a finite float carries its value as a real number.
  \<^verbatim>\<open>bool\<close>, \<^verbatim>\<open>int\<close>, \<^verbatim>\<open>float\<close> and \<^verbatim>\<open>complex\<close> are the built-in instances of
  \<^verbatim>\<open>numbers.Number\<close>.
\<close>

datatype pyfloat = Finite real | PosInf | NegInf | NaN

datatype pyval =
    PyNone
  | PyBool bool
  | PyInt int
  | PyFloat pyfloat
  | PyComplex pyfloat pyfloat
  | PyStr string

datatype error =
    TypeError
  | OverflowError
  | FileNotFoundError
  | IsADirectoryError
  | PermissionError
  | ClientError

fun isinstance_Number :: "pyval \<Rightarrow> bool" where
  "isinstance_Number (PyBool b) = True"
| "isinstance_Number (PyInt n) = True"
| "isinstance_Number (PyFloat x) = True"
| "isinstance_Number (PyComplex re im) = True"
| "isinstance_Number PyNone = False"
| "isinstance_Number (PyStr s) = False"

text \<open>
  \<^verbatim>\<open>math.isnan(x)\<close> converts its argument to a C double first: a complex number (or any
  value without \<^verbatim>\<open>__float__\<close>) raises \<^verbatim>\<open>TypeError\<close>, and an \<^verbatim>\<open>int\<close> that rounds to
  \<open>2 ^ 1024\<close> or more in magnitude raises \<^verbatim>\<open>OverflowError\<close>.
\<close>

definition int_fits_double :: "int \<Rightarrow> bool" where
  "int_fits_double n = (\<bar>n\<bar> < 2 ^ 1024 - 2 ^ 970)"

fun math_isnan :: "pyval \<Rightarrow> error + bool" where
  "math_isnan (PyFloat x) = Inr (x = NaN)"
| "math_isnan (PyInt n) = (if int_fits_double n then Inr False else Inl OverflowError)"
| "math_isnan (PyBool b) = Inr False"
| "math_isnan (PyComplex re im) = Inl TypeError"
| "math_isnan PyNone = Inl TypeError"
| "math_isnan (PyStr s) = Inl TypeError"

definition chg_nonnum :: "pyval \<Rightarrow> pyval \<Rightarrow> error + pyval" where
  "chg_nonnum val sub_val =
     (if isinstance_Number val then
        (case math_isnan val of
           Inl e \<Rightarrow> Inl e
         | Inr isnan \<Rightarrow> if isnan then Inr sub_val else Inr val)
      else Inr sub_val)"

section \<open>The world: local files, the bucket, standard output\<close>

text \<open>
  Everything the program touches outside its own variables is one explicit state.

  \<^item> The local file system is an association list from path to node, read through
    \<^const>\<open>map_of\<close>. A path is the string the program spells; two spellings of one file
    are not identified. Symbolic links and special files are not modelled.
  \<^item> \<open>denies\<close> says which system calls the operating system refuses (permissions).
  \<^item> \<open>glob_dirs\<close> is \<^verbatim>\<open>glob\<close>'s own expansion of a directory part that contains one of
    the metacharacters \<^verbatim>\<open>*\<close>, \<^verbatim>\<open>?\<close>, \<^verbatim>\<open>[\<close>: the directories whose path matches it as an
    \<^verbatim>\<open>fnmatch\<close> pattern. That matching belongs to the standard library and is taken
    from the environment.
  \<^item> The bucket is an association list from key to object. Every remote request is
    appended to \<open>history\<close>; \<open>rejects\<close> decides, from the requests made so far, whether
    the service refuses the next one (network, permission, quota).
  \<^item> \<open>stdout\<close> collects the lines written by \<^verbatim>\<open>print\<close>.
\<close>

datatype node = File string | Dir

datatype syscall = Open string | Unlink string

datatype request =
    ListObjects string
  | PutObject string string string
  | DeleteObject string
  | CopyObject string string

record s3object =
  Body :: string
  ContentType :: string

record world =
  files :: "(string \<times> node) list"
  denies :: "syscall \<Rightarrow> bool"
  glob_dirs :: "string \<Rightarrow> string list"
  objects :: "(string \<times> s3object) list"
  rejects :: "request list \<Rightarrow> request \<Rightarrow> bool"
  history :: "request list"
  stdout :: "string list"

text \<open>
  A statement either returns or raises; the state it leaves behind is kept in both
  cases, since nothing is rolled back when an exception propagates.
\<close>

type_synonym outcome = "error option \<times> world"

definition and_then :: "outcome \<Rightarrow> (world \<Rightarrow> outcome) \<Rightarrow> outcome" where
  "and_then r f = (case r of (Some e, w) \<Rightarrow> (Some e, w) | (None, w) \<Rightarrow> f w)"

text \<open>\<^verbatim>\<open>for x in xs: body(x)\<close>, leaving the loop at the first exception.\<close>

fun for_each :: "('a \<Rightarrow> world \<Rightarrow> outcome) \<Rightarrow> 'a list \<Rightarrow> world \<Rightarrow> outcome" where
  "for_each body [] w = (None, w)"
| "for_each body (x # xs) w = and_then (body x w) (for_each body xs)"

definition print :: "string \<Rightarrow> world \<Rightarrow> world" where
  "print line w = w\<lparr>stdout := stdout w @ [line]\<rparr>"

subsection \<open>Paths and globbing\<close>

text \<open>\<^verbatim>\<open>posixpath.join(a, b)\<close>.\<close>

definition os_path_join :: "string \<Rightarrow> string \<Rightarrow> string" where
  "os_path_join a b =
     (if prefix ''/'' b then b
      else if a = [] \<or> suffix ''/'' a then a @ b
      else a @ ''/'' @ b)"

definition rstrip :: "char \<Rightarrow> string \<Rightarrow> string" where
  "rstrip c s = rev (dropWhile (\<lambda>x. x = c) (rev s))"

text \<open>
  \<^verbatim>\<open>posixpath.split(p)\<close>:
  \<^verbatim>\<open>
    i = p.rfind(sep) + 1
    head, tail = p[:i], p[i:]
    if head and head != sep*len(head):
        head = head.rstrip(sep)
    return head, tail
  \<close>
\<close>

definition os_path_split :: "string \<Rightarrow> string \<times> string" where
  "os_path_split p =
     (let i = nat (rfind p CHR ''/'' + 1);
          head = take i p;
          tail = drop i p
      in (if head \<noteq> [] \<and> head \<noteq> replicate (length head) CHR ''/''
          then rstrip CHR ''/'' head else head, tail))"

text \<open>\<^verbatim>\<open>glob.has_magic\<close>: the regular expression \<^verbatim>\<open>([*?[])\<close> matches somewhere.\<close>

definition has_magic :: "string \<Rightarrow> bool" where
  "has_magic s = list_ex (\<lambda>c. c = CHR ''*'' \<or> c = CHR ''?'' \<or> c = CHR ''['') s"

text \<open>\<^verbatim>\<open>glob._ishidden\<close>: \<^verbatim>\<open>path[0] == '.'\<close>; directory entries are never empty.\<close>

fun ishidden :: "string \<Rightarrow> bool" where
  "ishidden [] = False"
| "ishidden (c # cs) = (c = CHR ''.'')"

text \<open>
  The name under which path \<open>p\<close> is an entry of directory \<open>dirname\<close>, if it is one: \<open>p\<close>
  is \<open>dirname\<close> joined with a non-empty name free of \<^verbatim>\<open>/\<close>. The empty \<open>dirname\<close> is
  the current directory.
\<close>

definition entry_name :: "string \<Rightarrow> string \<Rightarrow> string option" where
  "entry_name dirname p =
     (let pre = os_path_join dirname [];
          name = drop (length pre) p
      in if prefix pre p \<and> name \<noteq> [] \<and> CHR ''/'' \<notin> set name then Some name else None)"

text \<open>\<^verbatim>\<open>glob._listdir\<close>: the entry names of a directory; a directory that cannot be scanned yields none.\<close>

definition listdir :: "world \<Rightarrow> string \<Rightarrow> string list" where
  "listdir w dirname = remdups (List.map_filter (entry_name dirname) (map fst (files w)))"

text \<open>\<^verbatim>\<open>glob._glob1(dirname, '*')\<close>: the pattern \<^verbatim>\<open>*\<close> is not hidden, so hidden names are
  dropped; \<^verbatim>\<open>fnmatch.filter(names, '*')\<close> keeps every remaining name.\<close>

definition glob1 :: "world \<Rightarrow> string \<Rightarrow> string list" where
  "glob1 w dirname = filter (\<lambda>x. \<not> ishidden x) (listdir w dirname)"

text \<open>
  \<^verbatim>\<open>glob(os.path.join(dir_path, '*'))\<close>, following \<^verbatim>\<open>glob._iglob\<close>. The pattern always
  contains \<^verbatim>\<open>*\<close> and its last component is always \<^verbatim>\<open>*\<close>, so the branches for a
  pattern without metacharacters and for a literal last component do not arise.
\<close>

definition glob_star :: "world \<Rightarrow> string \<Rightarrow> string list" where
  "glob_star w dir_path =
     (let pathname = os_path_join dir_path ''*'';
          dirname = fst (os_path_split pathname)
      in if dirname = [] then glob1 w []
         else let dirs = (if dirname \<noteq> pathname \<and> has_magic dirname
                          then glob_dirs w dirname else [dirname])
              in concat (map (\<lambda>d. map (os_path_join d) (glob1 w d)) dirs))"

text \<open>The directory whose entries \<^const>\<open>glob_star\<close> reads when \<open>dir_path\<close> has no metacharacter.\<close>

definition glob_dirname :: "string \<Rightarrow> string" where
  "glob_dirname dir_path = fst (os_path_split (os_path_join dir_path ''*''))"

subsection \<open>System calls\<close>

definition os_path_isfile :: "world \<Rightarrow> string \<Rightarrow> bool" where
  "os_path_isfile w p = (case map_of (files w) p of Some (File data) \<Rightarrow> True | _ \<Rightarrow> False)"

definition os_remove :: "string \<Rightarrow> world \<Rightarrow> outcome" where
  "os_remove p w =
     (case map_of (files w) p of
        None \<Rightarrow> (Some FileNotFoundError, w)
      | Some Dir \<Rightarrow> (Some IsADirectoryError, w)
      | Some (File data) \<Rightarrow>
          if denies w (Unlink p) then (Some PermissionError, w)
          else (None, w\<lparr>files := AList.delete p (files w)\<rparr>))"

text \<open>\<^verbatim>\<open>open(p, 'rb')\<close>, together with the bytes a later read of the handle yields.\<close>

definition open_rb :: "world \<Rightarrow> string \<Rightarrow> error + string" where
  "open_rb w p =
     (case map_of (files w) p of
        None \<Rightarrow> Inl FileNotFoundError
      | Some Dir \<Rightarrow> Inl IsADirectoryError
      | Some (File data) \<Rightarrow> if denies w (Open p) then Inl PermissionError else Inr data)"

subsection \<open>Local directory cleanup\<close>

text \<open>
  \<^verbatim>\<open>
  def clear_dir(dir_path):
      for fn in glob(os.path.join(dir_path, '*')):
          if os.path.isfile(fn):
              print(f'deleting {fn}')
              os.remove(fn)
  \<close>
\<close>

definition clear_dir_body :: "string \<Rightarrow> world \<Rightarrow> outcome" where
  "clear_dir_body fn w =
     (if os_path_isfile w fn then os_remove fn (print (''deleting '' @ fn) w) else (None, w))"

definition clear_dir :: "string \<Rightarrow> world \<Rightarrow> outcome" where
  "clear_dir dir_path w = for_each clear_dir_body (glob_star w dir_path) w"

section \<open>The bucket\<close>

text \<open>
  The object of class \<^verbatim>\<open>Bucket\<close> holds the bucket's name and two handles of the SDK;
  what the handles reach is the \<open>objects\<close> of the world.
\<close>

record Bucket =
  bucket_name :: string

text \<open>
  One request to the service. It is logged, then refused or carried out. A refused
  request changes nothing. Copying needs its source to exist; deleting a key that is
  absent succeeds. Whether the service accepts a copy of an object onto itself is left
  to \<open>rejects\<close>.
\<close>

definition send :: "request \<Rightarrow> world \<Rightarrow> outcome" where
  "send req w =
     (let w' = w\<lparr>history := history w @ [req]\<rparr>
      in if rejects w (history w) req then (Some ClientError, w')
         else case req of
             ListObjects pre \<Rightarrow> (None, w')
           | PutObject key data typ \<Rightarrow>
               (None, w'\<lparr>objects := AList.update key \<lparr>Body = data, ContentType = typ\<rparr> (objects w)\<rparr>)
           | DeleteObject key \<Rightarrow> (None, w'\<lparr>objects := AList.delete key (objects w)\<rparr>)
           | CopyObject src dst \<Rightarrow>
               (case map_of (objects w) src of
                  None \<Rightarrow> (Some ClientError, w')
                | Some ob \<Rightarrow> (None, w'\<lparr>objects := AList.update dst ob (objects w)\<rparr>)))"

text \<open>
  \<^verbatim>\<open>self.bucket.objects.filter(Prefix = p)\<close>: the keys that start with \<open>p\<close>, in the
  service's order (ascending by bytes). The SDK fetches the listing in pages of up to
  1000 keys while the loop runs; the model takes the whole listing when the loop starts.
  The two agree whenever the listing fits one page, and for longer listings whenever no
  key created during the loop starts with \<open>p\<close> (deleting keys already listed does not
  disturb later pages).
\<close>

definition matching_keys :: "string \<Rightarrow> world \<Rightarrow> string list" where
  "matching_keys p w = sort (remdups (filter (prefix p) (map fst (objects w))))"

definition objects_filter :: "string \<Rightarrow> (string \<Rightarrow> world \<Rightarrow> outcome) \<Rightarrow> world \<Rightarrow> outcome" where
  "objects_filter p body w =
     and_then (send (ListObjects p) w) (\<lambda>w'. for_each body (matching_keys p w') w')"

text \<open>
  \<^verbatim>\<open>
  def upload_file(self, file_path, dest_key):
      cnt_typ = content_type(file_path)
      data = open(file_path, 'rb')
      self.bucket.put_object(Key=dest_key, Body=data, ContentType=cnt_typ)
      print(f'uploaded {file_path} with Content Type: {cnt_typ}')
  \<close>
\<close>

definition upload_file :: "Bucket \<Rightarrow> string \<Rightarrow> string \<Rightarrow> world \<Rightarrow> outcome" where
  "upload_file self file_path dest_key w =
     (let cnt_typ = content_type file_path
      in case open_rb w file_path of
           Inl e \<Rightarrow> (Some e, w)
         | Inr data \<Rightarrow>
             and_then (send (PutObject dest_key data cnt_typ) w)
               (\<lambda>w'. (None, print (''uploaded '' @ file_path @ '' with Content Type: '' @ cnt_typ) w')))"

text \<open>
  \<^verbatim>\<open>
  def clear_dir(self, dir_to_clear):
      dir_to_clear = dir_to_clear.strip('/')
      for obj in self.bucket.objects.filter(Prefix = dir_to_clear):
          print(f'deleting {obj.key}')
          obj.delete()
  \<close>
\<close>

definition Bucket_clear_dir_body :: "string \<Rightarrow> world \<Rightarrow> outcome" where
  "Bucket_clear_dir_body key w = send (DeleteObject key) (print (''deleting '' @ key) w)"

definition Bucket_clear_dir :: "Bucket \<Rightarrow> string \<Rightarrow> world \<Rightarrow> outcome" where
  "Bucket_clear_dir self dir_to_clear w =
     (let dir_to_clear = strip CHR ''/'' dir_to_clear
      in objects_filter dir_to_clear Bucket_clear_dir_body w)"

text \<open>
  \<^verbatim>\<open>
  def upload_dir(self, src_dir_local, dest_dir, clear_dest_dir=False):
      dest_dir = dest_dir.strip('/')
      if clear_dest_dir:
          self.clear_dir(dest_dir)
      for fn in glob(os.path.join(src_dir_local, '*')):
          base_name = os.path.basename(fn)
          dest_key = f'{dest_dir}/{base_name}'
          self.upload_file(fn, dest_key)
  \<close>
\<close>

definition upload_dir_body :: "Bucket \<Rightarrow> string \<Rightarrow> string \<Rightarrow> world \<Rightarrow> outcome" where
  "upload_dir_body self dest_dir fn w =
     (let base_name = basename fn;
          dest_key = dest_dir @ ''/'' @ base_name
      in upload_file self fn dest_key w)"

definition upload_dir :: "Bucket \<Rightarrow> string \<Rightarrow> string \<Rightarrow> bool \<Rightarrow> world \<Rightarrow> outcome" where
  "upload_dir self src_dir_local dest_dir clear_dest_dir w =
     (let dest_dir = strip CHR ''/'' dest_dir
      in and_then (if clear_dest_dir then Bucket_clear_dir self dest_dir w else (None, w))
           (\<lambda>w'. for_each (upload_dir_body self dest_dir) (glob_star w' src_dir_local) w'))"

text \<open>
  \<^verbatim>\<open>
  def move_files(self, src_dir, dest_dir, clear_dest=False):
      src_dir = src_dir.strip('/')
      dest_dir = dest_dir.strip('/')
      if clear_dest:
          self.clear_dir(dest_dir)
      for obj in self.bucket.objects.filter(Prefix = src_dir):
          if obj.key.strip('/')==src_dir:
              continue
          base_name = os.path.basename(obj.key)
          src = f'{obj.bucket_name}/{obj.key}'
          print(f'copying {src}')
          self.s3.Object(self.bucket_name, f'{dest_dir}/{base_name}').copy_from(CopySource=src)
          obj.delete()
  \<close>
  The copy source \<^verbatim>\<open>bucket/key\<close> names the listed object of this same bucket.
\<close>

definition move_files_body :: "Bucket \<Rightarrow> string \<Rightarrow> string \<Rightarrow> string \<Rightarrow> world \<Rightarrow> outcome" where
  "move_files_body self src_dir dest_dir key w =
     (if strip CHR ''/'' key = src_dir then (None, w)
      else let base_name = basename key;
               src = bucket_name self @ ''/'' @ key
           in and_then (send (CopyObject key (dest_dir @ ''/'' @ base_name)) (print (''copying '' @ src) w))
                (send (DeleteObject key)))"

definition move_files :: "Bucket \<Rightarrow> string \<Rightarrow> string \<Rightarrow> bool \<Rightarrow> world \<Rightarrow> outcome" where
  "move_files self src_dir dest_dir clear_dest w =
     (let src_dir = strip CHR ''/'' src_dir;
          dest_dir = strip CHR ''/'' dest_dir
      in and_then (if clear_dest then Bucket_clear_dir self dest_dir w else (None, w))
           (objects_filter src_dir (move_files_body self src_dir dest_dir)))"

section \<open>Example worlds\<close>

text \<open>Concrete states on which the properties below are exercised.\<close>

definition quiet_world :: "(string \<times> node) list \<Rightarrow> (string \<times> s3object) list \<Rightarrow> world" where
  "quiet_world fs obs =
     \<lparr>files = fs, denies = (\<lambda>c. False), glob_dirs = (\<lambda>d. []), objects = obs,
      rejects = (\<lambda>h r. False), history = [], stdout = []\<rparr>"

definition csv_object :: "string \<Rightarrow> s3object" where
  "csv_object data = \<lparr>Body = data, ContentType = ''text/csv''\<rparr>"

definition example_bucket :: Bucket where
  "example_bucket = \<lparr>bucket_name = ''ak-energy-data''\<rparr>"

definition example_objects :: "(string \<times> s3object) list" where
  "example_objects =
     [(''foo/a.csv'', csv_object ''1''), (''foobar/x.csv'', csv_object ''2''),
      (''other/b.csv'', csv_object ''3'')]"

definition faulty_world :: "(string \<times> node) list \<Rightarrow> (string \<times> s3object) list \<Rightarrow> request \<Rightarrow> world" where
  "faulty_world fs obs bad =
     \<lparr>files = fs, denies = (\<lambda>c. False), glob_dirs = (\<lambda>d. []), objects = obs,
      rejects = (\<lambda>h r. r = bad), history = [], stdout = []\<rparr>"

definition example_files :: "(string \<times> node) list" where
  "example_files =
     [(''out'', Dir), (''out/a.csv'', File ''1''), (''out/b'', Dir), (''out/c.csv'', File ''3''),
      (''out/.gitignore'', File ''*'')]"

definition flat_files :: "(string \<times> node) list" where
  "flat_files =
     [(''in'', Dir), (''in/a.csv'', File ''1''), (''in/b.txt'', File ''2''),
      (''in/.gitignore'', File ''*'')]"


text \<open>
  A working directory that holds a directory literally named \<^verbatim>\<open>[a]\<close> beside a directory
  named \<^verbatim>\<open>a\<close>. As an \<^verbatim>\<open>fnmatch\<close> pattern \<^verbatim>\<open>[a]\<close> is a character class: it matches the
  name \<^verbatim>\<open>a\<close> and no other, in particular not the name \<^verbatim>\<open>[a]\<close> itself.
\<close>

definition bracket_files :: "(string \<times> node) list" where
  "bracket_files =
     [(''[a]'', Dir), (''[a]/x.txt'', File ''1''), (''a'', Dir), (''a/y.txt'', File ''2'')]"

definition bracket_world :: world where
  "bracket_world =
     \<lparr>files = bracket_files, denies = (\<lambda>c. False),
      glob_dirs = (\<lambda>d. if d = ''[a]'' then [''a''] else []), objects = [],
      rejects = (\<lambda>h r. False), history = [], stdout = []\<rparr>"

section \<open>Error kinds of the specification\<close>

text \<open>
  The specification names three kinds of error: \<^verbatim>\<open>NotFoundError\<close> (a local file or
  directory does not exist), \<^verbatim>\<open>TransferError\<close> (a remote read, write, copy or delete
  fails) and \<^verbatim>\<open>ValidationError\<close> (malformed input, raised by no current behaviour).
  \<open>spec_error_kind\<close> reads the exceptions of the program in those terms: a missing local
  path is a \<^verbatim>\<open>NotFoundError\<close>, an error answer of the object store is a
  \<^verbatim>\<open>TransferError\<close>, and no other exception has a kind in the specification.
\<close>

datatype spec_error = NotFoundError | TransferError | ValidationError



section \<open>Properties of the string functions\<close>

lemma takeWhile_neq_all: "c \<notin> set xs \<Longrightarrow> takeWhile (\<lambda>x. x \<noteq> c) xs = xs"
  by (induction xs) auto

lemma takeWhile_neq_append:
  "c \<notin> set xs \<Longrightarrow> takeWhile (\<lambda>x. x \<noteq> c) (xs @ ys) = xs @ takeWhile (\<lambda>x. x \<noteq> c) ys"
  by (induction xs) auto

lemma rfind_notin: "c \<notin> set p \<Longrightarrow> rfind p c = - 1"
  by (simp add: rfind_def)

lemma split_last:
  "c \<in> set p \<Longrightarrow> p = before_last c p @ c # after_last c p"
proof -
  assume "c \<in> set p"
  then have ne: "dropWhile (\<lambda>x. x \<noteq> c) (rev p) \<noteq> []" by (simp add: dropWhile_eq_Nil_conv) 
  then have hd: "hd (dropWhile (\<lambda>x. x \<noteq> c) (rev p)) = c"
    using hd_dropWhile [of "\<lambda>x. x \<noteq> c" "rev p"] by simp
  have "rev p = takeWhile (\<lambda>x. x \<noteq> c) (rev p) @ dropWhile (\<lambda>x. x \<noteq> c) (rev p)" by simp
  also have "dropWhile (\<lambda>x. x \<noteq> c) (rev p) = c # drop 1 (dropWhile (\<lambda>x. x \<noteq> c) (rev p))"
    using ne hd by (cases "dropWhile (\<lambda>x. x \<noteq> c) (rev p)") simp_all
  finally have "rev (rev p) = rev (takeWhile (\<lambda>x. x \<noteq> c) (rev p) @ c # drop 1 (dropWhile (\<lambda>x. x \<noteq> c) (rev p)))"
    by simp
  then show ?thesis by (simp add: before_last_def after_last_def)
qed

lemma after_last_notin: "c \<notin> set (after_last c p)"
  unfolding after_last_def using set_takeWhileD by fastforce

lemma after_last_id: "c \<notin> set p \<Longrightarrow> after_last c p = p"
  by (simp add: after_last_def takeWhile_neq_all)

lemma rfind_eq: "c \<in> set p \<Longrightarrow> rfind p c = int (length (before_last c p))"
proof -
  assume a: "c \<in> set p"
  have "length p = length (before_last c p) + 1 + length (after_last c p)"
    using split_last [OF a] by (metis add.assoc length_append length_Cons One_nat_def plus_1_eq_Suc)
  then show ?thesis using a by (simp add: rfind_def after_last_def)
qed

lemma rfind_append_in: "c \<in> set s \<Longrightarrow> rfind (pre @ s) c = int (length pre) + rfind s c"
  by (simp add: rfind_def)

lemma rfind_append_notin: "c \<notin> set s \<Longrightarrow> rfind (pre @ s) c = rfind pre c"
proof -
  assume a: "c \<notin> set s"
  then have "takeWhile (\<lambda>x. x \<noteq> c) (rev s @ rev pre) = rev s @ takeWhile (\<lambda>x. x \<noteq> c) (rev pre)"
    by (simp add: takeWhile_neq_append)
  then show ?thesis using a by (simp add: rfind_def)
qed

lemma rfind_upper: "rfind p c < int (length p)"
proof (cases "c \<in> set p")
  case True
  have "length p = length (before_last c p) + 1 + length (after_last c p)"
    using split_last [OF True] by (metis add.assoc length_append length_Cons One_nat_def plus_1_eq_Suc)
  then show ?thesis using rfind_eq [OF True] by simp
next
  case False
  then show ?thesis by (simp add: rfind_notin)
qed

lemma basename_eq: "basename p = after_last CHR ''/'' p"
proof (cases "CHR ''/'' \<in> set p")
  case True
  from split_last [OF True] have "drop (length (before_last CHR ''/'' p) + 1) p = after_last CHR ''/'' p"
    by (metis append.assoc append_Cons append_Nil append_eq_conv_conj length_append_singleton Suc_eq_plus1)
  then show ?thesis using rfind_eq [OF True] by (simp add: basename_def nat_add_distrib)
next
  case False
  then show ?thesis by (simp add: basename_def rfind_notin after_last_id)
qed

lemma splitext_loop_char:
  "splitext_loop p i d =
     (if \<exists>j. i \<le> j \<and> j < d \<and> take 1 (drop j p) \<noteq> ''.'' then (take d p, drop d p) else (p, []))"
proof (induction p i d rule: splitext_loop.induct)
  case (1 p i d)
  show ?case
  proof (cases "i < d")
    case False
    then show ?thesis by (subst splitext_loop.simps) auto
  next
    case True
    show ?thesis
    proof (cases "take 1 (drop i p) \<noteq> ''.''")
      case True
      with \<open>i < d\<close> show ?thesis by (subst splitext_loop.simps) auto
    next
      case False
      have "(\<exists>j. i \<le> j \<and> j < d \<and> take 1 (drop j p) \<noteq> ''.'') = (\<exists>j. i + 1 \<le> j \<and> j < d \<and> take 1 (drop j p) \<noteq> ''.'')"
        using False by (metis Suc_eq_plus1 Suc_leI le_neq_implies_less add_leD1 )
      then show ?thesis using False \<open>i < d\<close> "1.IH" by (subst splitext_loop.simps) simp
    qed
  qed
qed

lemma dropWhile_eq_notin: "c \<notin> set xs \<Longrightarrow> dropWhile (\<lambda>x. x = c) xs = xs"
  by (cases xs) auto

lemma strip_notin: "c \<notin> set s \<Longrightarrow> strip c s = s"
  by (simp add: strip_def dropWhile_eq_notin)

lemma strip_Cons_same: "strip c (c # s) = strip c s"
  by (simp add: strip_def)

lemma strip_Nil: "strip c [] = []"
  by (simp add: strip_def)

lemma path_decomp:
  obtains pre where "f = pre @ after_last CHR ''/'' f" and "rfind f CHR ''/'' + 1 = int (length pre)"
proof (cases "CHR ''/'' \<in> set f")
  case True
  have "f = (before_last CHR ''/'' f @ ''/'') @ after_last CHR ''/'' f"
    using split_last [OF True] by simp
  moreover have "rfind f CHR ''/'' + 1 = int (length (before_last CHR ''/'' f @ ''/''))"
    using rfind_eq [OF True] by simp
  ultimately show ?thesis using that by blast
next
  case False
  then have "f = [] @ after_last CHR ''/'' f" "rfind f CHR ''/'' + 1 = int (length ([]::string))"
    by (simp_all add: after_last_id rfind_notin)
  then show ?thesis using that by blast
qed

lemma exists_nondot_conv:
  "(\<exists>j. j < length bl \<and> take 1 (drop j (bl @ rest)) \<noteq> [c]) = (dropWhile (\<lambda>x. x = c) bl \<noteq> [])"
proof -
  have "\<And>j. j < length bl \<Longrightarrow> take 1 (drop j (bl @ rest)) = [bl ! j]"
    by (simp add: Cons_nth_drop_Suc [symmetric] nth_append)
  then have "(\<exists>j. j < length bl \<and> take 1 (drop j (bl @ rest)) \<noteq> [c]) = (\<exists>j <length bl. bl ! j \<noteq> c)"
    by auto
  also have "\<dots> = (\<exists>x \<in> set bl. x \<noteq> c)"
    by (metis in_set_conv_nth)
  also have "\<dots> = (dropWhile (\<lambda>x. x = c) bl \<noteq> [])"
    by (auto simp: dropWhile_eq_Nil_conv)
  finally show ?thesis .
qed

lemma splitext_ext: "strip CHR ''.'' (snd (splitext f)) = stem_extension f"
proof -
  obtain pre where f: "f = pre @ after_last CHR ''/'' f"
    and sep: "rfind f CHR ''/'' + 1 = int (length pre)"
    by (rule path_decomp)
  define seg where "seg = after_last CHR ''/'' f"
  have f': "f = pre @ seg" using f by (simp add: seg_def)
  show ?thesis
  proof (cases "CHR ''.'' \<in> set seg")
    case False
    have "rfind f CHR ''.'' = rfind pre CHR ''.''"
      using rfind_append_notin [OF False, of pre] f' by simp
    then have "\<not> rfind f CHR ''.'' > rfind f CHR ''/''"
      using rfind_upper [of pre "CHR ''.''"] sep by simp
    then have "splitext f = (f, [])" by (simp add: splitext_def Let_def)
    then show ?thesis using False by (simp add: stem_extension_def seg_def [symmetric] strip_Nil)
  next
    case True
    define bl where "bl = before_last CHR ''.'' seg"
    define al where "al = after_last CHR ''.'' seg"
    have seg: "seg = bl @ CHR ''.'' # al"
      using split_last [OF True] by (simp add: bl_def al_def)
    have dot: "rfind f CHR ''.'' = int (length pre) + int (length bl)"
      using rfind_append_in [OF True, of pre] rfind_eq [OF True] f' by (simp add: bl_def)
    then have gt: "rfind f CHR ''.'' > rfind f CHR ''/''" using sep by simp
    have idx: "nat (rfind f CHR ''/'' + 1) = length pre" "nat (rfind f CHR ''.'') = length pre + length bl"
      using sep dot by simp_all
    have ex: "(\<exists>j. length pre \<le> j \<and> j < length pre + length bl \<and> take 1 (drop j f) \<noteq> ''.'')
        = (dropWhile (\<lambda>x. x = CHR ''.'') bl \<noteq> [])"
    proof -
      have "(\<exists>j. length pre \<le> j \<and> j < length pre + length bl \<and> take 1 (drop j f) \<noteq> ''.'')
        = (\<exists>j. j < length bl \<and> take 1 (drop (length pre + j) f) \<noteq> ''.'')"
        by (metis add_less_cancel_left le_add1 le_Suc_ex)
      also have "\<dots> = (\<exists>j. j < length bl \<and> take 1 (drop j (bl @ CHR ''.'' # al)) \<noteq> ''.'')"
        using f' seg by (metis append_eq_conv_conj drop_drop add.commute)
      finally show ?thesis by (simp only: exists_nondot_conv)
    qed
    have dropd: "drop (length pre + length bl) f = CHR ''.'' # al"
      using f' seg by (metis append.assoc append_eq_conv_conj length_append)
    have "strip CHR ''.'' (snd (splitext f)) = (if dropWhile (\<lambda>x. x = CHR ''.'') bl \<noteq> [] then al else [])"
      using gt ex
      by (simp add: splitext_def Let_def idx splitext_loop_char dropd strip_Cons_same strip_Nil
          strip_notin al_def after_last_notin)
    then show ?thesis using True by (simp add: stem_extension_def seg_def [symmetric] bl_def al_def)
  qed
qed

section \<open>Content type resolution\<close>

lemmas content_type_eval =
  content_type_def splitext_def rfind_def splitext_loop.simps strip_def
  get_content_type_def content_type_map_def

text \<open>
  C5 (as amended). For every file name, \<open>content_type\<close> looks up, by exact match in the fixed
  table, the substring after the last \<^verbatim>\<open>.\<close> of the final path segment, provided some
  character other than \<^verbatim>\<open>.\<close> precedes that \<^verbatim>\<open>.\<close> within the segment, and the empty
  string otherwise; it returns the mapped type, else \<^verbatim>\<open>application/octet-stream\<close>. The three
  examples of the specification hold.
\<close>

theorem content_type_by_extension:
  "content_type f = get_content_type (stem_extension f)
   \<and> content_type ''report.csv'' = ''text/csv''
   \<and> content_type ''data'' = ''application/octet-stream''
   \<and> content_type ''archive.CSV'' = ''application/octet-stream''"
proof -
  have "content_type f = get_content_type (stem_extension f)"
    by (simp add: content_type_def splitext_ext)
  moreover have "content_type ''report.csv'' = ''text/csv''"
    by (simp add: content_type_eval)
  moreover have "content_type ''data'' = ''application/octet-stream''"
    by (simp add: content_type_eval)
  moreover have "content_type ''archive.CSV'' = ''application/octet-stream''"
    by (simp add: content_type_eval)
  ultimately show ?thesis by blast
qed

theorem content_type_by_extension_witness:
  "content_type ''site/index.html'' = ''text/html''"
  using content_type_by_extension [of "''site/index.html''"]
  by (simp add: stem_extension_def after_last_def before_last_def get_content_type_def
      content_type_map_def)

text \<open>
  C5 as stated fails for a name whose final segment starts with its only dots: the
  substring after the last \<^verbatim>\<open>.\<close> of \<^verbatim>\<open>.csv\<close> is \<^verbatim>\<open>csv\<close>, which the table maps to
  \<^verbatim>\<open>text/csv\<close>, but the code treats the leading dot as part of the name.
\<close>

theorem content_type_leading_dot:
  "content_type ''.csv'' = ''application/octet-stream''
   \<and> get_content_type (spec_extension ''.csv'') = ''text/csv''"
  by (simp add: content_type_eval spec_extension_def after_last_def)

section \<open>Numeric sanitising\<close>

lemma chg_nonnum_float:
  "chg_nonnum (PyFloat x) s = Inr (if x = NaN then s else PyFloat x)"
  by (simp add: chg_nonnum_def)

lemma chg_nonnum_int:
  "chg_nonnum (PyInt n) s = (if int_fits_double n then Inr (PyInt n) else Inl OverflowError)"
  by (simp add: chg_nonnum_def)

lemma chg_nonnum_bool: "chg_nonnum (PyBool b) s = Inr (PyBool b)"
  by (simp add: chg_nonnum_def)

lemma chg_nonnum_not_number: "\<not> isinstance_Number v \<Longrightarrow> chg_nonnum v s = Inr s"
  by (simp add: chg_nonnum_def)

text \<open>
  C4. The docstring promises that a number other than NaN is returned unchanged. A complex
  number is a \<^verbatim>\<open>numbers.Number\<close>, so the code passes it to \<^verbatim>\<open>math.isnan\<close>, which raises
  \<^verbatim>\<open>TypeError\<close>: \<^verbatim>\<open>chg_nonnum(complex(1, 2), 0)\<close> does not return.
\<close>

theorem chg_nonnum_complex_raises:
  "chg_nonnum (PyComplex (Finite 1) (Finite 2)) (PyInt 0) = Inl TypeError"
  by (simp add: chg_nonnum_def)

section \<open>Loops, requests and the bucket operations\<close>


lemma and_then_Some [simp]: "and_then (Some e, w) f = (Some e, w)"
  by (simp add: and_then_def)

lemma and_then_None [simp]: "and_then (None, w) f = f w"
  by (simp add: and_then_def)

lemma and_then_ok:
  "fst (and_then r f) = None \<Longrightarrow> fst r = None \<and> fst (f (snd r)) = None \<and> and_then r f = f (snd r)"
  by (cases r) (auto simp: and_then_def split: option.splits)

lemma for_each_append:
  "for_each body (xs @ ys) w = and_then (for_each body xs w) (for_each body ys)"
proof (induction xs arbitrary: w)
  case Nil
  show ?case by simp
next
  case (Cons x xs)
  show ?case
  proof (cases "body x w")
    case (Pair r w1)
    then show ?thesis using Cons by (cases r) simp_all
  qed
qed

lemma for_each_abort:
  assumes "for_each body xs w = (None, w1)" and "body u w1 = (Some e, w2)"
  shows "for_each body (xs @ u # ys) w = (Some e, w2)"
  using assms by (simp add: for_each_append)

lemma for_each_Cons_ok:
  "fst (for_each body (x # xs) w) = None \<Longrightarrow>
     fst (body x w) = None \<and> fst (for_each body xs (snd (body x w))) = None
     \<and> for_each body (x # xs) w = for_each body xs (snd (body x w))"
  using and_then_ok [of "body x w" "for_each body xs"] by simp

text \<open>What a request leaves behind.\<close>

lemma send_frame:
  "files (snd (send req w)) = files w"
  "denies (snd (send req w)) = denies w"
  "glob_dirs (snd (send req w)) = glob_dirs w"
  "rejects (snd (send req w)) = rejects w"
  "stdout (snd (send req w)) = stdout w"
  "history (snd (send req w)) = history w @ [req]"
  by (auto simp: send_def Let_def split: request.splits option.splits)

lemma send_rejected:
  "rejects w (history w) req \<Longrightarrow> send req w = (Some ClientError, w\<lparr>history := history w @ [req]\<rparr>)"
  by (simp add: send_def Let_def)

lemma send_ok_iff:
  "fst (send req w) = None \<longleftrightarrow>
     \<not> rejects w (history w) req \<and> (\<forall>src dst. req = CopyObject src dst \<longrightarrow> map_of (objects w) src \<noteq> None)"
  by (auto simp: send_def Let_def split: request.splits option.splits)

lemma send_objects:
  "fst (send req w) = None \<Longrightarrow>
   map_of (objects (snd (send req w))) =
     (case req of
        ListObjects p \<Rightarrow> map_of (objects w)
      | PutObject k b t \<Rightarrow> (map_of (objects w))(k \<mapsto> \<lparr>Body = b, ContentType = t\<rparr>)
      | DeleteObject k \<Rightarrow> (map_of (objects w))(k := None)
      | CopyObject src dst \<Rightarrow> (map_of (objects w))(dst := map_of (objects w) src))"
  by (auto simp: send_def Let_def update_conv' delete_conv' split: request.splits option.splits if_splits)

lemma send_List_objects: "objects (snd (send (ListObjects p) w)) = objects w"
  by (simp add: send_def Let_def)

lemma print_frame [simp]:
  "files (print l w) = files w" "denies (print l w) = denies w"
  "glob_dirs (print l w) = glob_dirs w" "objects (print l w) = objects w"
  "rejects (print l w) = rejects w" "history (print l w) = history w"
  "stdout (print l w) = stdout w @ [l]"
  by (simp_all add: print_def)

lemma set_matching_keys:
  "set (matching_keys p w) = {k \<in> fst ` set (objects w). prefix p k}"
  by (auto simp: matching_keys_def)

lemma distinct_matching_keys: "distinct (matching_keys p w)"
  by (simp add: matching_keys_def)

lemma in_keys_iff: "k \<in> fst ` set al \<longleftrightarrow> map_of al k \<noteq> None"
  by (simp add: map_of_eq_None_iff)

subsection \<open>Clearing a prefix\<close>

lemma Bucket_clear_dir_body_objects:
  "fst (Bucket_clear_dir_body k w) = None \<Longrightarrow>
     objects (snd (Bucket_clear_dir_body k w)) = filter (\<lambda>kv. fst kv \<noteq> k) (objects w)"
  by (auto simp: Bucket_clear_dir_body_def send_def Let_def AList.delete_eq split: if_splits intro: filter_cong)

lemma clear_loop_objects:
  "fst (for_each Bucket_clear_dir_body ks w) = None \<Longrightarrow>
     objects (snd (for_each Bucket_clear_dir_body ks w)) = filter (\<lambda>kv. fst kv \<notin> set ks) (objects w)"
proof (induction ks arbitrary: w)
  case Nil
  show ?case by simp
next
  case (Cons k ks)
  from for_each_Cons_ok [OF Cons.prems]
  have ok: "fst (Bucket_clear_dir_body k w) = None"
    and rest: "fst (for_each Bucket_clear_dir_body ks (snd (Bucket_clear_dir_body k w))) = None"
    and eq: "for_each Bucket_clear_dir_body (k # ks) w =
             for_each Bucket_clear_dir_body ks (snd (Bucket_clear_dir_body k w))"
    by simp_all
  show ?case
    unfolding eq Cons.IH [OF rest] Bucket_clear_dir_body_objects [OF ok]
    by (auto intro: filter_cong)
qed

lemma Bucket_clear_dir_unfold:
  "Bucket_clear_dir self p w =
     and_then (send (ListObjects (strip CHR ''/'' p)) w)
       (\<lambda>w'. for_each Bucket_clear_dir_body (matching_keys (strip CHR ''/'' p) w') w')"
  by (simp add: Bucket_clear_dir_def objects_filter_def Let_def)

lemma Bucket_clear_dir_objects:
  assumes "fst (Bucket_clear_dir self p w) = None"
  shows "objects (snd (Bucket_clear_dir self p w)) =
           filter (\<lambda>kv. \<not> prefix (strip CHR ''/'' p) (fst kv)) (objects w)"
proof -
  define s where "s = strip CHR ''/'' p"
  define w1 where "w1 = snd (send (ListObjects s) w)"
  have un: "Bucket_clear_dir self p w =
     and_then (send (ListObjects s) w) (\<lambda>w'. for_each Bucket_clear_dir_body (matching_keys s w') w')"
    by (simp add: Bucket_clear_dir_unfold s_def)
  from and_then_ok [of "send (ListObjects s) w" "\<lambda>w'. for_each Bucket_clear_dir_body (matching_keys s w') w'"] assms un
  have loop: "fst (for_each Bucket_clear_dir_body (matching_keys s w1) w1) = None"
    and eq: "Bucket_clear_dir self p w = for_each Bucket_clear_dir_body (matching_keys s w1) w1"
    by (simp_all add: w1_def)
  have ob: "objects w1 = objects w" by (simp add: w1_def send_List_objects)
  have "objects (snd (Bucket_clear_dir self p w)) = filter (\<lambda>kv. fst kv \<notin> set (matching_keys s w1)) (objects w1)"
    unfolding eq by (rule clear_loop_objects [OF loop])
  also have "\<dots> = filter (\<lambda>kv. \<not> prefix s (fst kv)) (objects w)"
    unfolding ob by (rule filter_cong) (auto simp: set_matching_keys ob)
  finally show ?thesis by (simp add: s_def)
qed

lemma dropWhile_all_same: "set p \<subseteq> {c} \<Longrightarrow> dropWhile (\<lambda>x. x = c) p = []"
  by (induction p) auto

lemma strip_all_same: "set p \<subseteq> {c} \<Longrightarrow> strip c p = []"
  by (simp add: strip_def dropWhile_all_same)


lemma Bucket_clear_dir_body_rejects:
  "rejects (snd (Bucket_clear_dir_body k w)) = rejects w"
  by (simp add: Bucket_clear_dir_body_def send_frame)

lemma clear_loop_succeeds:
  "\<forall>h r. \<not> rejects w h r \<Longrightarrow> fst (for_each Bucket_clear_dir_body ks w) = None"
proof (induction ks arbitrary: w)
  case Nil
  show ?case by simp
next
  case (Cons k ks)
  have ok: "fst (Bucket_clear_dir_body k w) = None"
    using Cons.prems by (simp add: Bucket_clear_dir_body_def send_ok_iff)
  have "\<forall>h r. \<not> rejects (snd (Bucket_clear_dir_body k w)) h r"
    using Cons.prems by (simp add: Bucket_clear_dir_body_rejects)
  from Cons.IH [OF this] ok show ?case
    by (cases "Bucket_clear_dir_body k w") simp
qed

lemma Bucket_clear_dir_succeeds:
  assumes "\<forall>h r. \<not> rejects w h r"
  shows "fst (Bucket_clear_dir self p w) = None"
proof -
  define s where "s = strip CHR ''/'' p"
  have ok: "fst (send (ListObjects s) w) = None" using assms by (simp add: send_ok_iff)
  have "\<forall>h r. \<not> rejects (snd (send (ListObjects s) w)) h r" using assms by (simp add: send_frame)
  from clear_loop_succeeds [OF this] ok show ?thesis
    unfolding Bucket_clear_dir_unfold s_def [symmetric]
    by (cases "send (ListObjects s) w") simp
qed

text \<open>
  C9. A prefix that is empty or consists only of \<^verbatim>\<open>/\<close> is normalised to the empty string. When
  \<open>Bucket_clear_dir\<close> then returns without error the bucket holds no object at all, and
  it does return without error whenever the service refuses no request.
\<close>

theorem clear_dir_slash_prefix_empties_bucket:
  "set p \<subseteq> {CHR ''/''} \<Longrightarrow>
     strip CHR ''/'' p = []
     \<and> (fst (Bucket_clear_dir self p w) = None \<longrightarrow> objects (snd (Bucket_clear_dir self p w)) = [])
     \<and> ((\<forall>h r. \<not> rejects w h r) \<longrightarrow> fst (Bucket_clear_dir self p w) = None)"
  by (simp add: strip_all_same Bucket_clear_dir_objects Bucket_clear_dir_succeeds)

theorem clear_dir_slash_prefix_witness:
  "set ''//'' \<subseteq> {CHR ''/''}
   \<and> fst (Bucket_clear_dir example_bucket ''//'' (quiet_world [] example_objects)) = None
   \<and> objects (snd (Bucket_clear_dir example_bucket ''//'' (quiet_world [] example_objects))) = []"
  using clear_dir_slash_prefix_empties_bucket
    [of "''//''" example_bucket "quiet_world [] example_objects"]
  by (simp add: quiet_world_def)

lemma filter_dropWhile_same:
  "filter (\<lambda>x. x \<noteq> c) (dropWhile (\<lambda>x. x = c) s) = filter (\<lambda>x. x \<noteq> c) s"
  by (induction s) auto

lemma filter_strip: "filter (\<lambda>x. x \<noteq> c) (strip c s) = filter (\<lambda>x. x \<noteq> c) s"
  by (simp add: strip_def filter_dropWhile_same rev_filter [symmetric])

lemma strip_extension_neq:
  assumes "c \<noteq> CHR ''/''"
  shows "strip CHR ''/'' (strip CHR ''/'' p @ c # rest) \<noteq> strip CHR ''/'' p"
proof
  assume "strip CHR ''/'' (strip CHR ''/'' p @ c # rest) = strip CHR ''/'' p"
  then have "filter (\<lambda>x. x \<noteq> CHR ''/'') (strip CHR ''/'' (strip CHR ''/'' p @ c # rest))
      = filter (\<lambda>x. x \<noteq> CHR ''/'') (strip CHR ''/'' p)" by simp
  then have "length (filter (\<lambda>x. x \<noteq> CHR ''/'') (strip CHR ''/'' p @ c # rest))
      = length (filter (\<lambda>x. x \<noteq> CHR ''/'') (strip CHR ''/'' p))"
    by (simp only: filter_strip)
  then show False using assms by simp
qed

lemma move_files_body_ok_history:
  assumes "strip CHR ''/'' k \<noteq> s" and "fst (move_files_body self s d k w) = None"
  shows "history (snd (move_files_body self s d k w)) =
           history w @ [CopyObject k (d @ ''/'' @ basename k), DeleteObject k]"
proof -
  define w1 where "w1 = print (''copying '' @ bucket_name self @ ''/'' @ k) w"
  have un: "move_files_body self s d k w =
      and_then (send (CopyObject k (d @ ''/'' @ basename k)) w1) (send (DeleteObject k))"
    using assms(1) by (simp add: move_files_body_def Let_def w1_def)
  from and_then_ok [of "send (CopyObject k (d @ ''/'' @ basename k)) w1" "send (DeleteObject k)"] assms(2) un
  have eq: "move_files_body self s d k w = send (DeleteObject k) (snd (send (CopyObject k (d @ ''/'' @ basename k)) w1))"
    by simp
  show ?thesis unfolding eq by (simp add: send_frame w1_def)
qed

subsection \<open>Paths and directory listings\<close>

lemma strip_idem: "strip c (strip c s) = strip c s"
proof -
  define a where "a = dropWhile (\<lambda>x. x = c) s"
  define b where "b = dropWhile (\<lambda>x. x = c) (rev a)"
  have "dropWhile (\<lambda>x. x = c) (rev b) = rev b"
  proof (cases "b = []")
    case True
    then show ?thesis by simp
  next
    case False
    have split: "rev a = takeWhile (\<lambda>x. x = c) (rev a) @ b" by (simp add: b_def)
    then have "last (rev a) = last b" using False by (metis last_appendR)
    moreover have "a \<noteq> []" using False by (auto simp: b_def)
    ultimately have "last b = hd a" by (simp add: last_rev)
    moreover have "hd a \<noteq> c"
      using \<open>a \<noteq> []\<close> hd_dropWhile [of "\<lambda>x. x = c" s] by (simp add: a_def)
    ultimately have "hd (rev b) \<noteq> c" using False by (simp add: hd_rev)
    then show ?thesis by (simp add: dropWhile_eq_self_iff)
  qed
  moreover have "dropWhile (\<lambda>x. x = c) b = b" by (simp add: b_def)
  ultimately have "rev (dropWhile (\<lambda>x. x = c) (rev (dropWhile (\<lambda>x. x = c) (rev b)))) = rev b"
    by simp
  then show ?thesis by (simp only: strip_def a_def [symmetric] b_def [symmetric])
qed

lemma after_last_append: "c \<notin> set n \<Longrightarrow> after_last c (x @ c # n) = n"
  by (simp add: after_last_def takeWhile_neq_append)

lemma os_path_join_Nil: "os_path_join [] n = n"
  by (simp add: os_path_join_def)

lemma join_eq_append: "CHR ''/'' \<notin> set n \<Longrightarrow> os_path_join d n = os_path_join d [] @ n"
proof -
  assume "CHR ''/'' \<notin> set n"
  then have "\<not> prefix ''/'' n" by (cases n) auto
  then show ?thesis by (simp add: os_path_join_def)
qed

lemma join_dir_shape: "os_path_join d [] = [] \<or> (\<exists>x. os_path_join d [] = x @ ''/'')"
proof (cases "d = [] \<or> suffix ''/'' d")
  case True
  then have "os_path_join d [] = d" by (simp add: os_path_join_def)
  then show ?thesis using True by (auto simp: suffix_def)
next
  case False
  then have "os_path_join d [] = d @ ''/''" by (simp add: os_path_join_def)
  then show ?thesis by blast
qed

lemma basename_join: "CHR ''/'' \<notin> set n \<Longrightarrow> basename (os_path_join d n) = n"
proof -
  assume n: "CHR ''/'' \<notin> set n"
  have j: "os_path_join d n = os_path_join d [] @ n" using n by (rule join_eq_append)
  from join_dir_shape [of d] show ?thesis
  proof
    assume "os_path_join d [] = []"
    then have "os_path_join d n = n" using j by simp
    then show ?thesis using n by (simp add: basename_eq after_last_id)
  next
    assume "\<exists>x. os_path_join d [] = x @ ''/''"
    then obtain x where "os_path_join d [] = x @ ''/''" by blast
    then have "os_path_join d n = x @ CHR ''/'' # n" using j by simp
    then show ?thesis using n by (simp add: basename_eq after_last_append)
  qed
qed

lemma join_inject:
  assumes "CHR ''/'' \<notin> set n" and "CHR ''/'' \<notin> set m"
  shows "(os_path_join d n = os_path_join d m) = (n = m)"
proof -
  have "os_path_join d n = os_path_join d [] @ n" using assms(1) by (rule join_eq_append)
  moreover have "os_path_join d m = os_path_join d [] @ m" using assms(2) by (rule join_eq_append)
  ultimately show ?thesis by simp
qed

lemma entry_name_Some:
  "(entry_name d p = Some n) = (p = os_path_join d n \<and> n \<noteq> [] \<and> CHR ''/'' \<notin> set n)"
proof -
  have "(entry_name d p = Some n) = (p = os_path_join d [] @ n \<and> n \<noteq> [] \<and> CHR ''/'' \<notin> set n)"
    by (auto simp: entry_name_def Let_def prefix_def)
  also have "\<dots> = (p = os_path_join d n \<and> n \<noteq> [] \<and> CHR ''/'' \<notin> set n)"
    using join_eq_append [of n d] by auto
  finally show ?thesis .
qed

lemma set_map_filter_conv: "set (List.map_filter f xs) = {y. \<exists>x\<in>set xs. f x = Some y}"
  by (induction xs) (auto split: option.splits)

lemma set_listdir:
  "set (listdir w d) = {n. n \<noteq> [] \<and> CHR ''/'' \<notin> set n \<and> os_path_join d n \<in> fst ` set (files w)}"
  by (auto simp: listdir_def set_map_filter_conv entry_name_Some)

lemma distinct_listdir: "distinct (listdir w d)"
  by (simp add: listdir_def)


lemma distinct_glob1: "distinct (glob1 w d)"
  by (simp add: glob1_def distinct_listdir)

lemma glob_star_literal:
  assumes "\<not> has_magic (glob_dirname src)"
  shows "glob_star w src = map (os_path_join (glob_dirname src)) (glob1 w (glob_dirname src))"
proof (cases "glob_dirname src = []")
  case True
  have "os_path_join [] = (\<lambda>n. n)" by (rule ext) (simp add: os_path_join_Nil)
  then have "map (os_path_join []) (glob1 w []) = glob1 w []" by simp
  then show ?thesis using True by (simp add: glob_star_def glob_dirname_def Let_def)
next
  case False
  then show ?thesis using assms by (simp add: glob_star_def glob_dirname_def Let_def)
qed

subsection \<open>Uploading one file\<close>


lemma open_rb_Inr:
  "(open_rb w p = Inr data) = (map_of (files w) p = Some (File data) \<and> \<not> denies w (Open p))"
  by (auto simp: open_rb_def split: option.splits node.splits)

lemma upload_file_local_failure:
  "open_rb w file_path = Inl e \<Longrightarrow> upload_file self file_path dest_key w = (Some e, w)"
  by (simp add: upload_file_def)

lemma upload_file_sent:
  "open_rb w file_path = Inr data \<Longrightarrow>
     upload_file self file_path dest_key w =
       and_then (send (PutObject dest_key data (content_type file_path)) w)
         (\<lambda>w'. (None, print (''uploaded '' @ file_path @ '' with Content Type: '' @ content_type file_path) w'))"
  by (simp add: upload_file_def Let_def)

lemma send_Put:
  "send (PutObject k b t) w =
     (if rejects w (history w) (PutObject k b t)
      then (Some ClientError, w\<lparr>history := history w @ [PutObject k b t]\<rparr>)
      else (None, w\<lparr>history := history w @ [PutObject k b t],
                    objects := AList.update k \<lparr>Body = b, ContentType = t\<rparr> (objects w)\<rparr>))"
  by (simp add: send_def Let_def)




lemma upload_file_frame:
  "files (snd (upload_file self fp k w)) = files w"
  "denies (snd (upload_file self fp k w)) = denies w"
  "glob_dirs (snd (upload_file self fp k w)) = glob_dirs w"
  by (cases "open_rb w fp"; simp add: upload_file_local_failure upload_file_sent send_Put)+

lemma upload_file_ok:
  assumes "fst (upload_file self fp k w) = None"
  shows "\<exists>data. map_of (files w) fp = Some (File data)
           \<and> map_of (objects (snd (upload_file self fp k w)))
               = (map_of (objects w))(k \<mapsto> \<lparr>Body = data, ContentType = content_type fp\<rparr>)"
proof (cases "open_rb w fp")
  case (Inl e)
  then show ?thesis using assms by (simp add: upload_file_local_failure)
next
  case (Inr data)
  then have "map_of (files w) fp = Some (File data)" by (simp add: open_rb_Inr)
  moreover have "map_of (objects (snd (upload_file self fp k w)))
               = (map_of (objects w))(k \<mapsto> \<lparr>Body = data, ContentType = content_type fp\<rparr>)"
    using assms Inr by (simp add: upload_file_sent send_Put update_conv' split: if_splits)
  ultimately show ?thesis by blast
qed

lemma upload_loop:
  assumes "distinct ns" and "\<forall>n\<in>set ns. CHR ''/'' \<notin> set n"
    and "fst (for_each (upload_dir_body self dest) (map (os_path_join d) ns) w) = None"
  shows "(\<forall>n\<in>set ns. \<exists>data. map_of (files w) (os_path_join d n) = Some (File data)
            \<and> map_of (objects (snd (for_each (upload_dir_body self dest) (map (os_path_join d) ns) w)))
                 (dest @ ''/'' @ n)
               = Some \<lparr>Body = data, ContentType = content_type (os_path_join d n)\<rparr>)
       \<and> (\<forall>k. (\<forall>n\<in>set ns. k \<noteq> dest @ ''/'' @ n) \<longrightarrow>
            map_of (objects (snd (for_each (upload_dir_body self dest) (map (os_path_join d) ns) w))) k
              = map_of (objects w) k)"
  using assms
proof (induction ns arbitrary: w)
  case Nil
  show ?case by simp
next
  case (Cons n ns)
  define w1 where "w1 = snd (upload_dir_body self dest (os_path_join d n) w)"
  define w' where "w' = snd (for_each (upload_dir_body self dest) (map (os_path_join d) ns) w1)"
  have n: "CHR ''/'' \<notin> set n" and notin: "n \<notin> set ns" using Cons.prems by simp_all
  have body: "upload_dir_body self dest (os_path_join d n) w
      = upload_file self (os_path_join d n) (dest @ ''/'' @ n) w"
    by (simp add: upload_dir_body_def Let_def basename_join [OF n])
  from for_each_Cons_ok [of "upload_dir_body self dest" "os_path_join d n" "map (os_path_join d) ns" w]
    Cons.prems(3)
  have ok: "fst (upload_dir_body self dest (os_path_join d n) w) = None"
    and rest: "fst (for_each (upload_dir_body self dest) (map (os_path_join d) ns) w1) = None"
    and eq: "snd (for_each (upload_dir_body self dest) (map (os_path_join d) (n # ns)) w) = w'"
    by (simp_all add: w1_def w'_def)
  from upload_file_ok [of self "os_path_join d n" "dest @ ''/'' @ n" w] ok body
  obtain data where isfile: "map_of (files w) (os_path_join d n) = Some (File data)"
    and ob1: "map_of (objects w1)
        = (map_of (objects w))(dest @ ''/'' @ n \<mapsto> \<lparr>Body = data, ContentType = content_type (os_path_join d n)\<rparr>)"
    by (auto simp: w1_def)
  have files1: "files w1 = files w" by (simp add: w1_def body upload_file_frame)
  have IH: "(\<forall>m\<in>set ns. \<exists>data. map_of (files w1) (os_path_join d m) = Some (File data)
            \<and> map_of (objects w') (dest @ ''/'' @ m)
               = Some \<lparr>Body = data, ContentType = content_type (os_path_join d m)\<rparr>)
       \<and> (\<forall>k. (\<forall>m\<in>set ns. k \<noteq> dest @ ''/'' @ m) \<longrightarrow> map_of (objects w') k = map_of (objects w1) k)"
    unfolding w'_def using Cons.IH [OF _ _ rest] Cons.prems(1,2) by simp
  have head: "map_of (objects w') (dest @ ''/'' @ n)
      = Some \<lparr>Body = data, ContentType = content_type (os_path_join d n)\<rparr>"
  proof -
    have "\<forall>m\<in>set ns. dest @ ''/'' @ n \<noteq> dest @ ''/'' @ m" using notin by auto
    then have "map_of (objects w') (dest @ ''/'' @ n) = map_of (objects w1) (dest @ ''/'' @ n)"
      using IH by blast
    then show ?thesis by (simp add: ob1)
  qed
  show ?case
    unfolding eq
  proof (intro conjI ballI allI impI)
    fix m assume "m \<in> set (n # ns)"
    then show "\<exists>data. map_of (files w) (os_path_join d m) = Some (File data)
        \<and> map_of (objects w') (dest @ ''/'' @ m)
            = Some \<lparr>Body = data, ContentType = content_type (os_path_join d m)\<rparr>"
      using head isfile IH files1 by auto
  next
    fix k assume k: "\<forall>m\<in>set (n # ns). k \<noteq> dest @ ''/'' @ m"
    then have "map_of (objects w') k = map_of (objects w1) k" using IH by simp
    also have "\<dots> = map_of (objects w) k" using k by (simp add: ob1)
    finally show "map_of (objects w') k = map_of (objects w) k" .
  qed
qed

subsection \<open>Uploading a directory\<close>

lemma for_each_frame:
  assumes "\<And>x w. f (snd (body x w)) = f w"
  shows "f (snd (for_each body xs w)) = f w"
proof (induction xs arbitrary: w)
  case Nil
  show ?case by simp
next
  case (Cons x xs)
  show ?case
  proof (cases "body x w")
    case (Pair r w1)
    have "f w1 = f w" using assms [of x w] Pair by simp
    then show ?thesis using Pair Cons.IH [of w1] by (cases r) simp_all
  qed
qed

lemma and_then_frame:
  assumes "f (snd r) = f w" and "\<And>w'. f (snd (g w')) = f w'"
  shows "f (snd (and_then r g)) = f w"
  using assms by (cases r) (auto simp: and_then_def split: option.splits)

lemma Bucket_clear_dir_body_frame:
  "files (snd (Bucket_clear_dir_body k w)) = files w"
  "glob_dirs (snd (Bucket_clear_dir_body k w)) = glob_dirs w"
  by (simp_all add: Bucket_clear_dir_body_def send_frame)

lemma Bucket_clear_dir_frame:
  "files (snd (Bucket_clear_dir self p w)) = files w"
  "glob_dirs (snd (Bucket_clear_dir self p w)) = glob_dirs w"
  unfolding Bucket_clear_dir_unfold
  by (rule and_then_frame, simp add: send_frame, rule for_each_frame,
      simp add: Bucket_clear_dir_body_frame)+

lemma glob1_cong: "files w1 = files w \<Longrightarrow> glob1 w1 d = glob1 w d"
  by (simp add: glob1_def listdir_def)


lemma map_of_filter_keys:
  "map_of (filter (\<lambda>kv. \<not> P (fst kv)) al) k = (if P k then None else map_of al k)"
  by (induction al) auto

lemma set_glob1:
  "set (glob1 w d) = {n. n \<noteq> [] \<and> CHR ''/'' \<notin> set n \<and> \<not> ishidden n
                         \<and> os_path_join d n \<in> fst ` set (files w)}"
  by (auto simp: glob1_def set_listdir)

lemma upload_dir_loop_result:
  assumes "\<not> has_magic (glob_dirname src)"
    and "fst (for_each (upload_dir_body self p) (glob_star w src) w) = None"
  shows "(\<forall>n\<in>set (glob1 w (glob_dirname src)).
            \<exists>data. map_of (files w) (os_path_join (glob_dirname src) n) = Some (File data)
              \<and> map_of (objects (snd (for_each (upload_dir_body self p) (glob_star w src) w))) (p @ ''/'' @ n)
                  = Some \<lparr>Body = data, ContentType = content_type (os_path_join (glob_dirname src) n)\<rparr>)
       \<and> (\<forall>k. (\<forall>n\<in>set (glob1 w (glob_dirname src)). k \<noteq> p @ ''/'' @ n) \<longrightarrow>
            map_of (objects (snd (for_each (upload_dir_body self p) (glob_star w src) w))) k
              = map_of (objects w) k)"
proof -
  have names: "\<forall>n\<in>set (glob1 w (glob_dirname src)). CHR ''/'' \<notin> set n"
    by (simp add: set_glob1)
  show ?thesis
    using upload_loop [OF distinct_glob1 names, where w = w and d = "glob_dirname src"
        and self = self and dest = p] assms(2)
    unfolding glob_star_literal [OF assms(1)] by blast
qed

lemma Bucket_clear_dir_strip:
  "Bucket_clear_dir self (strip CHR ''/'' p) w = Bucket_clear_dir self p w"
  by (simp add: Bucket_clear_dir_def Let_def strip_idem)

lemma upload_dir_unfold:
  "upload_dir self dir dest clear w =
     and_then (if clear then Bucket_clear_dir self dest w else (None, w))
       (\<lambda>w'. for_each (upload_dir_body self (strip CHR ''/'' dest)) (glob_star w' dir) w')"
  by (simp add: upload_dir_def Let_def Bucket_clear_dir_strip)













text \<open>
  C6 (as amended). When the directory part of the pattern has no metacharacter and
  \<open>upload_dir\<close>, called with clearing, returns without error, the keys under
  \<^verbatim>\<open>dest/\<close> are exactly \<^verbatim>\<open>dest/name\<close> for the names in the directory that do not start
  with a dot, each holding the bytes of that file; every other key that starts with the
  destination prefix is gone, and the keys that do not start with it are unchanged.
\<close>

theorem upload_dir_clear_first_replaces_prefix:
  assumes "\<not> has_magic (glob_dirname src)"
    and "fst (upload_dir self src dest True w) = None"
  shows "(\<forall>k. prefix (strip CHR ''/'' dest @ ''/'') k \<longrightarrow>
            (map_of (objects (snd (upload_dir self src dest True w))) k \<noteq> None)
              = (\<exists>n\<in>set (glob1 w (glob_dirname src)). k = strip CHR ''/'' dest @ ''/'' @ n))
       \<and> (\<forall>n\<in>set (glob1 w (glob_dirname src)).
            \<not> ishidden n
            \<and> (\<exists>data. map_of (files w) (os_path_join (glob_dirname src) n) = Some (File data)
              \<and> map_of (objects (snd (upload_dir self src dest True w))) (strip CHR ''/'' dest @ ''/'' @ n)
                  = Some \<lparr>Body = data, ContentType = content_type (os_path_join (glob_dirname src) n)\<rparr>))
       \<and> (\<forall>k. (\<forall>n\<in>set (glob1 w (glob_dirname src)). k \<noteq> strip CHR ''/'' dest @ ''/'' @ n) \<longrightarrow>
            map_of (objects (snd (upload_dir self src dest True w))) k
              = (if prefix (strip CHR ''/'' dest) k then None else map_of (objects w) k))
       \<and> set (glob1 w (glob_dirname src))
           = {n. n \<noteq> [] \<and> CHR ''/'' \<notin> set n \<and> \<not> ishidden n
                  \<and> os_path_join (glob_dirname src) n \<in> fst ` set (files w)}"
proof -
  define p where "p = strip CHR ''/'' dest"
  define w1 where "w1 = snd (Bucket_clear_dir self p w)"
  define w' where "w' = snd (for_each (upload_dir_body self p) (glob_star w1 src) w1)"
  have un: "upload_dir self src dest True w
      = and_then (Bucket_clear_dir self p w)
          (\<lambda>w'. for_each (upload_dir_body self p) (glob_star w' src) w')"
    by (simp add: upload_dir_def Let_def p_def)
  from and_then_ok [of "Bucket_clear_dir self p w"
      "\<lambda>w'. for_each (upload_dir_body self p) (glob_star w' src) w'"] assms(2) un
  have cok: "fst (Bucket_clear_dir self p w) = None"
    and lok: "fst (for_each (upload_dir_body self p) (glob_star w1 src) w1) = None"
    and eq: "snd (upload_dir self src dest True w) = w'"
    by (simp_all add: w1_def w'_def)
  have files1: "files w1 = files w" by (simp add: w1_def Bucket_clear_dir_frame)
  have g1: "glob1 w1 (glob_dirname src) = glob1 w (glob_dirname src)"
    using files1 by (rule glob1_cong)
  have ob1: "map_of (objects w1) k = (if prefix p k then None else map_of (objects w) k)" for k
    unfolding w1_def Bucket_clear_dir_objects [OF cok]
    by (simp add: map_of_filter_keys p_def strip_idem)
  from upload_dir_loop_result [OF assms(1) lok]
  have up: "\<forall>n\<in>set (glob1 w (glob_dirname src)).
            \<exists>data. map_of (files w) (os_path_join (glob_dirname src) n) = Some (File data)
              \<and> map_of (objects w') (p @ ''/'' @ n)
                  = Some \<lparr>Body = data, ContentType = content_type (os_path_join (glob_dirname src) n)\<rparr>"
    and rest: "\<forall>k. (\<forall>n\<in>set (glob1 w (glob_dirname src)). k \<noteq> p @ ''/'' @ n) \<longrightarrow>
            map_of (objects w') k = map_of (objects w1) k"
    unfolding w'_def [symmetric] g1 files1 by blast+
  have a: "(map_of (objects w') k \<noteq> None) = (\<exists>n\<in>set (glob1 w (glob_dirname src)). k = p @ ''/'' @ n)"
    if "prefix (p @ ''/'') k" for k
  proof (cases "\<exists>n\<in>set (glob1 w (glob_dirname src)). k = p @ ''/'' @ n")
    case True
    then show ?thesis using up by auto
  next
    case False
    have "prefix p k" using that by (auto simp: prefix_def)
    then have "map_of (objects w1) k = None" by (simp add: ob1)
    then show ?thesis using False rest by auto
  qed
  have b: "\<forall>n\<in>set (glob1 w (glob_dirname src)). \<not> ishidden n"
    by (simp add: set_glob1)
  have c: "\<forall>k. (\<forall>n\<in>set (glob1 w (glob_dirname src)). k \<noteq> p @ ''/'' @ n) \<longrightarrow>
            map_of (objects w') k = (if prefix p k then None else map_of (objects w) k)"
    using rest ob1 by simp
  show ?thesis unfolding eq p_def [symmetric] using a b c up set_glob1 [of w "glob_dirname src"] by blast
qed

theorem upload_dir_clear_first_witness:
  "map fst (filter (\<lambda>kv. prefix ''foo/'' (fst kv))
      (objects (snd (upload_dir example_bucket ''in'' ''foo'' True (quiet_world flat_files example_objects)))))
     = [''foo/a.csv'', ''foo/b.txt'']
   \<and> (map_of (objects (snd (upload_dir example_bucket ''in'' ''foo'' True
         (quiet_world flat_files example_objects)))) ''foo/b.txt'' \<noteq> None)
   \<and> map_of (objects (snd (upload_dir example_bucket ''in'' ''foo'' True
         (quiet_world flat_files example_objects)))) ''foo/a.csv''
       = Some \<lparr>Body = ''1'', ContentType = ''text/csv''\<rparr>"
proof -
  define Q where "Q = quiet_world flat_files example_objects"
  have m: "\<not> has_magic (glob_dirname ''in'')" by code_simp
  have ok: "fst (upload_dir example_bucket ''in'' ''foo'' True Q) = None"
    unfolding Q_def by code_simp
  have g: "glob1 Q (glob_dirname ''in'') = [''a.csv'', ''b.txt'']" unfolding Q_def by code_simp
  have f: "map_of (files Q) (os_path_join (glob_dirname ''in'') ''a.csv'') = Some (File ''1'')"
    unfolding Q_def by code_simp
  have c: "content_type (os_path_join (glob_dirname ''in'') ''a.csv'') = ''text/csv''" by code_simp
  have s: "strip CHR ''/'' ''foo'' = ''foo''" by code_simp
  have l: "map fst (filter (\<lambda>kv. prefix ''foo/'' (fst kv))
      (objects (snd (upload_dir example_bucket ''in'' ''foo'' True Q)))) = [''foo/a.csv'', ''foo/b.txt'']"
    unfolding Q_def by code_simp
  have pre: "prefix (strip CHR ''/'' ''foo'' @ ''/'') ''foo/b.txt''" by code_simp
  from upload_dir_clear_first_replaces_prefix [OF m ok] g f c s l pre
  show ?thesis unfolding Q_def [symmetric] by auto
qed

text \<open>
  C6 as stated fails for a directory that holds a file whose name starts with a dot:
  \<^verbatim>\<open>in/.gitignore\<close> is a file of the directory, the call succeeds, and no key
  \<^verbatim>\<open>foo/.gitignore\<close> exists afterwards.
\<close>

theorem upload_dir_clear_first_skips_dot_files:
  "fst (upload_dir example_bucket ''in'' ''foo'' True (quiet_world flat_files example_objects)) = None
   \<and> map_of flat_files ''in/.gitignore'' = Some (File ''*'')
   \<and> map_of (objects (snd (upload_dir example_bucket ''in'' ''foo'' True
        (quiet_world flat_files example_objects)))) ''foo/.gitignore'' = None"
  by code_simp

subsection \<open>Moving a prefix\<close>

lemma move_files_body_marker:
  "strip CHR ''/'' k = s \<Longrightarrow> move_files_body self s d k w = (None, w)"
  by (simp add: move_files_body_def)

lemma move_files_body_objects:
  assumes "strip CHR ''/'' k \<noteq> s" and "fst (move_files_body self s d k w) = None"
  shows "map_of (objects w) k \<noteq> None"
    and "map_of (objects (snd (move_files_body self s d k w)))
           = ((map_of (objects w))(d @ ''/'' @ basename k := map_of (objects w) k))(k := None)"
proof -
  define w1 where "w1 = print (''copying '' @ bucket_name self @ ''/'' @ k) w"
  define w2 where "w2 = snd (send (CopyObject k (d @ ''/'' @ basename k)) w1)"
  have un: "move_files_body self s d k w =
      and_then (send (CopyObject k (d @ ''/'' @ basename k)) w1) (send (DeleteObject k))"
    using assms(1) by (simp add: move_files_body_def Let_def w1_def)
  from and_then_ok [of "send (CopyObject k (d @ ''/'' @ basename k)) w1" "send (DeleteObject k)"] assms(2) un
  have c: "fst (send (CopyObject k (d @ ''/'' @ basename k)) w1) = None"
    and dl: "fst (send (DeleteObject k) w2) = None"
    and eq: "move_files_body self s d k w = send (DeleteObject k) w2"
    by (simp_all add: w2_def)
  show "map_of (objects w) k \<noteq> None"
    using c by (simp add: send_ok_iff w1_def)
  have o2: "map_of (objects w2) = (map_of (objects w))(d @ ''/'' @ basename k := map_of (objects w) k)"
    unfolding w2_def using send_objects [OF c] by (simp add: w1_def)
  show "map_of (objects (snd (move_files_body self s d k w)))
           = ((map_of (objects w))(d @ ''/'' @ basename k := map_of (objects w) k))(k := None)"
    unfolding eq using send_objects [OF dl] by (simp add: o2)
qed

lemma move_loop_exact_history:
  assumes "fst (for_each (move_files_body self s d) ks w) = None"
  shows "history (snd (for_each (move_files_body self s d) ks w))
           = history w @ concat (map (\<lambda>k. [CopyObject k (d @ ''/'' @ basename k), DeleteObject k])
                                  (filter (\<lambda>k. strip CHR ''/'' k \<noteq> s) ks))"
  using assms
proof (induction ks arbitrary: w)
  case Nil
  show ?case by simp
next
  case (Cons k ks)
  from for_each_Cons_ok [OF Cons.prems]
  have ok: "fst (move_files_body self s d k w) = None"
    and rest: "fst (for_each (move_files_body self s d) ks (snd (move_files_body self s d k w))) = None"
    and eq: "for_each (move_files_body self s d) (k # ks) w =
             for_each (move_files_body self s d) ks (snd (move_files_body self s d k w))"
    by simp_all
  show ?case
  proof (cases "strip CHR ''/'' k = s")
    case True
    then show ?thesis unfolding eq Cons.IH [OF rest] by (simp add: move_files_body_marker)
  next
    case False
    then show ?thesis unfolding eq Cons.IH [OF rest]
      by (simp add: move_files_body_ok_history [OF False ok])
  qed
qed

lemma move_files_body_objects_at:
  assumes "fst (move_files_body self s d k w) = None"
    and "j \<noteq> k" and "strip CHR ''/'' k = s \<or> j \<noteq> d @ ''/'' @ basename k"
  shows "map_of (objects (snd (move_files_body self s d k w))) j = map_of (objects w) j"
proof (cases "strip CHR ''/'' k = s")
  case True
  then show ?thesis by (simp add: move_files_body_marker)
next
  case False
  then have "j \<noteq> d @ ''/'' @ basename k" using assms(3) by simp
  then show ?thesis
    unfolding move_files_body_objects(2) [OF False assms(1)] using assms(2) by simp
qed

lemma move_loop_frame:
  assumes "fst (for_each (move_files_body self s d) ks w) = None"
    and "j \<notin> set ks"
    and "\<forall>k\<in>set ks. strip CHR ''/'' k \<noteq> s \<longrightarrow> j \<noteq> d @ ''/'' @ basename k"
  shows "map_of (objects (snd (for_each (move_files_body self s d) ks w))) j = map_of (objects w) j"
  using assms
proof (induction ks arbitrary: w)
  case Nil
  show ?case by simp
next
  case (Cons k ks)
  from for_each_Cons_ok [OF Cons.prems(1)]
  have ok: "fst (move_files_body self s d k w) = None"
    and rest: "fst (for_each (move_files_body self s d) ks (snd (move_files_body self s d k w))) = None"
    and eq: "for_each (move_files_body self s d) (k # ks) w =
             for_each (move_files_body self s d) ks (snd (move_files_body self s d k w))"
    by simp_all
  have a: "j \<notin> set ks" and b: "j \<noteq> k" using Cons.prems(2) by simp_all
  have c: "\<forall>k\<in>set ks. strip CHR ''/'' k \<noteq> s \<longrightarrow> j \<noteq> d @ ''/'' @ basename k"
    and e: "strip CHR ''/'' k = s \<or> j \<noteq> d @ ''/'' @ basename k"
    using Cons.prems(3) by auto
  show ?case unfolding eq Cons.IH [OF rest a c] using ok b e by (rule move_files_body_objects_at)
qed

lemma move_loop_sources:
  assumes "distinct ks"
    and "\<forall>k\<in>set ks. strip CHR ''/'' k \<noteq> s \<longrightarrow> d @ ''/'' @ basename k \<notin> set ks"
    and "fst (for_each (move_files_body self s d) ks w) = None"
    and "x \<in> set ks"
  shows "map_of (objects (snd (for_each (move_files_body self s d) ks w))) x
           = (if strip CHR ''/'' x = s then map_of (objects w) x else None)"
  using assms
proof (induction ks arbitrary: w)
  case Nil
  then show ?case by simp
next
  case (Cons k ks)
  define w1 where "w1 = snd (move_files_body self s d k w)"
  from for_each_Cons_ok [OF Cons.prems(3)]
  have ok: "fst (move_files_body self s d k w) = None"
    and rest: "fst (for_each (move_files_body self s d) ks w1) = None"
    and eq: "for_each (move_files_body self s d) (k # ks) w = for_each (move_files_body self s d) ks w1"
    by (simp_all add: w1_def)
  have dist: "distinct ks" and knot: "k \<notin> set ks" using Cons.prems(1) by simp_all
  have H: "\<forall>y\<in>set ks. strip CHR ''/'' y \<noteq> s \<longrightarrow> d @ ''/'' @ basename y \<notin> set ks"
    and Hk: "\<forall>y\<in>set ks. strip CHR ''/'' y \<noteq> s \<longrightarrow> k \<noteq> d @ ''/'' @ basename y"
    and Hx: "strip CHR ''/'' k = s \<or> d @ ''/'' @ basename k \<notin> set ks"
    and Hkk: "strip CHR ''/'' k = s \<or> d @ ''/'' @ basename k \<noteq> k"
    using Cons.prems(2) by auto
  show ?case
  proof (cases "x = k")
    case True
    have "map_of (objects (snd (for_each (move_files_body self s d) ks w1))) k = map_of (objects w1) k"
      using rest knot Hk by (rule move_loop_frame)
    also have "\<dots> = (if strip CHR ''/'' k = s then map_of (objects w) k else None)"
    proof (cases "strip CHR ''/'' k = s")
      case True
      then show ?thesis by (simp add: w1_def move_files_body_marker)
    next
      case False
      then show ?thesis unfolding w1_def move_files_body_objects(2) [OF False ok] by simp
    qed
    finally show ?thesis unfolding eq True .
  next
    case False
    then have xin: "x \<in> set ks" using Cons.prems(4) by simp
    have "strip CHR ''/'' k = s \<or> x \<noteq> d @ ''/'' @ basename k" using Hx xin by auto
    with ok False have "map_of (objects w1) x = map_of (objects w) x"
      unfolding w1_def by (rule move_files_body_objects_at)
    then show ?thesis unfolding eq Cons.IH [OF dist H rest xin] by simp
  qed
qed

lemma move_loop_destinations:
  assumes "distinct ks"
    and "\<forall>k\<in>set ks. strip CHR ''/'' k \<noteq> s \<longrightarrow> d @ ''/'' @ basename k \<notin> set ks"
    and "fst (for_each (move_files_body self s d) ks w) = None"
    and "x \<in> set ks" and "strip CHR ''/'' x \<noteq> s"
  shows "\<exists>k'\<in>set ks. strip CHR ''/'' k' \<noteq> s \<and> basename k' = basename x
            \<and> map_of (objects w) k' \<noteq> None
            \<and> map_of (objects (snd (for_each (move_files_body self s d) ks w))) (d @ ''/'' @ basename x)
                = map_of (objects w) k'"
  using assms
proof (induction ks arbitrary: w x)
  case Nil
  then show ?case by simp
next
  case (Cons k ks)
  define w1 where "w1 = snd (move_files_body self s d k w)"
  define w' where "w' = snd (for_each (move_files_body self s d) ks w1)"
  from for_each_Cons_ok [OF Cons.prems(3)]
  have ok: "fst (move_files_body self s d k w) = None"
    and rest: "fst (for_each (move_files_body self s d) ks w1) = None"
    and eq: "snd (for_each (move_files_body self s d) (k # ks) w) = w'"
    by (simp_all add: w1_def w'_def)
  have dist: "distinct ks" and knot: "k \<notin> set ks" using Cons.prems(1) by simp_all
  have H: "\<forall>y\<in>set ks. strip CHR ''/'' y \<noteq> s \<longrightarrow> d @ ''/'' @ basename y \<notin> set ks"
    and Hx: "strip CHR ''/'' k = s \<or> d @ ''/'' @ basename k \<notin> set ks"
    and Hkk: "strip CHR ''/'' k = s \<or> d @ ''/'' @ basename k \<noteq> k"
    using Cons.prems(2) by auto
  have in_other: "map_of (objects w1) y = map_of (objects w) y" if "y \<in> set ks" for y
  proof -
    have "y \<noteq> k" using that knot by auto
    moreover have "strip CHR ''/'' k = s \<or> y \<noteq> d @ ''/'' @ basename k" using Hx that by auto
    ultimately show ?thesis using ok unfolding w1_def by (intro move_files_body_objects_at)
  qed
  show ?case
  proof (cases "\<exists>y\<in>set ks. strip CHR ''/'' y \<noteq> s \<and> basename y = basename x")
    case True
    then obtain y where y: "y \<in> set ks" "strip CHR ''/'' y \<noteq> s" "basename y = basename x" by blast
    from Cons.IH [OF dist H rest y(1,2)]
    obtain k' where k': "k' \<in> set ks" "strip CHR ''/'' k' \<noteq> s" "basename k' = basename y"
      "map_of (objects w1) k' \<noteq> None"
      "map_of (objects w') (d @ ''/'' @ basename y) = map_of (objects w1) k'"
      unfolding w'_def by blast
    have "k' \<in> set (k # ks)" using k'(1) by simp
    moreover have "basename k' = basename x" using k'(3) y(3) by simp
    moreover have "map_of (objects w) k' \<noteq> None" using k'(4) in_other [OF k'(1)] by simp
    moreover have "map_of (objects w') (d @ ''/'' @ basename x) = map_of (objects w) k'"
      using k'(5) in_other [OF k'(1)] y(3) by simp
    ultimately show ?thesis unfolding eq using k'(2) by blast
  next
    case False
    then have xk: "x = k" using Cons.prems(4,5) by auto
    have nm: "strip CHR ''/'' k \<noteq> s" using Cons.prems(5) xk by simp
    have a: "d @ ''/'' @ basename k \<notin> set ks" and b: "d @ ''/'' @ basename k \<noteq> k"
      using Hx Hkk nm by simp_all
    have c: "\<forall>y\<in>set ks. strip CHR ''/'' y \<noteq> s \<longrightarrow> d @ ''/'' @ basename k \<noteq> d @ ''/'' @ basename y"
      using False xk by auto
    have "map_of (objects w') (d @ ''/'' @ basename k) = map_of (objects w1) (d @ ''/'' @ basename k)"
      unfolding w'_def using rest a c by (rule move_loop_frame)
    also have "\<dots> = map_of (objects w) k"
      unfolding w1_def move_files_body_objects(2) [OF nm ok] using b by simp
    finally have "map_of (objects w') (d @ ''/'' @ basename x) = map_of (objects w) k"
      using xk by simp
    moreover have "map_of (objects w) k \<noteq> None" using nm ok by (rule move_files_body_objects(1))
    moreover have "k \<in> set (k # ks)" by simp
    ultimately show ?thesis unfolding eq using nm xk by blast
  qed
qed

lemma move_files_unfold_clear:
  "move_files self src dest clear w =
     and_then (if clear then Bucket_clear_dir self dest w else (None, w))
       (\<lambda>wc. and_then (send (ListObjects (strip CHR ''/'' src)) wc)
          (\<lambda>w'. for_each (move_files_body self (strip CHR ''/'' src) (strip CHR ''/'' dest))
                   (matching_keys (strip CHR ''/'' src) w') w'))"
proof -
  have "objects_filter s body = (\<lambda>wc. and_then (send (ListObjects s) wc)
          (\<lambda>w'. for_each body (matching_keys s w') w'))" for s body
    by (rule ext) (simp add: objects_filter_def)
  then show ?thesis by (simp add: move_files_def Let_def Bucket_clear_dir_strip)
qed

lemma move_files_body_unfold:
  "strip CHR ''/'' u \<noteq> s \<Longrightarrow>
     move_files_body self s d u w =
       and_then (send (CopyObject u (d @ ''/'' @ basename u)) (print (''copying '' @ bucket_name self @ ''/'' @ u) w))
         (send (DeleteObject u))"
  by (simp add: move_files_body_def Let_def)

lemma move_files_after_clear:
  assumes "(if clear then Bucket_clear_dir self dest w else (None, w)) = (None, wc)"
  shows "move_files self src dest clear w
           = objects_filter (strip CHR ''/'' src)
               (move_files_body self (strip CHR ''/'' src) (strip CHR ''/'' dest)) wc"
  using assms by (cases clear) (simp_all add: move_files_def Let_def Bucket_clear_dir_strip)

lemma clear_phase_objects:
  assumes "(if clear then Bucket_clear_dir self dest w else (None, w)) = (None, wc)"
  shows "map_of (objects wc) k
           = (if clear \<and> prefix (strip CHR ''/'' dest) k then None else map_of (objects w) k)"
proof (cases clear)
  case True
  then have r: "Bucket_clear_dir self dest w = (None, wc)" using assms by simp
  then have "fst (Bucket_clear_dir self dest w) = None" by simp
  from Bucket_clear_dir_objects [OF this] r True show ?thesis
    by (simp add: map_of_filter_keys)
next
  case False
  then show ?thesis using assms by simp
qed

lemma move_listing:
  assumes ok: "fst (objects_filter s (move_files_body self s d) wc) = None"
    and H: "\<forall>k. map_of (objects wc) k \<noteq> None \<and> prefix s k \<and> strip CHR ''/'' k \<noteq> s
            \<longrightarrow> \<not> prefix s (d @ ''/'' @ basename k)"
  shows "(\<forall>k. prefix s k \<longrightarrow>
            map_of (objects (snd (objects_filter s (move_files_body self s d) wc))) k
              = (if strip CHR ''/'' k = s then map_of (objects wc) k else None))
       \<and> (\<forall>k. prefix s k \<and> strip CHR ''/'' k \<noteq> s \<and> map_of (objects wc) k \<noteq> None \<longrightarrow>
            (\<exists>k'. prefix s k' \<and> strip CHR ''/'' k' \<noteq> s \<and> basename k' = basename k
                 \<and> map_of (objects wc) k' \<noteq> None
                 \<and> map_of (objects (snd (objects_filter s (move_files_body self s d) wc)))
                      (d @ ''/'' @ basename k) = map_of (objects wc) k'))
       \<and> (\<forall>j. \<not> prefix s j
              \<and> (\<forall>k. prefix s k \<and> strip CHR ''/'' k \<noteq> s \<and> map_of (objects wc) k \<noteq> None
                     \<longrightarrow> j \<noteq> d @ ''/'' @ basename k) \<longrightarrow>
            map_of (objects (snd (objects_filter s (move_files_body self s d) wc))) j
              = map_of (objects wc) j)"
proof -
  define w1 where "w1 = snd (send (ListObjects s) wc)"
  define ks where "ks = matching_keys s w1"
  define w' where "w' = snd (for_each (move_files_body self s d) ks w1)"
  have un: "objects_filter s (move_files_body self s d) wc =
      and_then (send (ListObjects s) wc) (\<lambda>w'. for_each (move_files_body self s d) (matching_keys s w') w')"
    by (simp add: objects_filter_def)
  from and_then_ok [of "send (ListObjects s) wc"
      "\<lambda>w'. for_each (move_files_body self s d) (matching_keys s w') w'"] ok un
  have loop: "fst (for_each (move_files_body self s d) ks w1) = None"
    and eq: "snd (objects_filter s (move_files_body self s d) wc) = w'"
    by (simp_all add: w1_def w'_def ks_def)
  have o1: "objects w1 = objects wc" by (simp add: w1_def send_List_objects)
  have in_ks: "k \<in> set ks \<longleftrightarrow> map_of (objects wc) k \<noteq> None \<and> prefix s k" for k
    by (auto simp: ks_def set_matching_keys in_keys_iff o1)
  have dist: "distinct ks" by (simp add: ks_def distinct_matching_keys)
  have Hks: "\<forall>k\<in>set ks. strip CHR ''/'' k \<noteq> s \<longrightarrow> d @ ''/'' @ basename k \<notin> set ks"
    using H by (auto simp: in_ks)
  have a: "map_of (objects w') k = (if strip CHR ''/'' k = s then map_of (objects wc) k else None)"
    if "prefix s k" for k
  proof (cases "k \<in> set ks")
    case True
    from move_loop_sources [OF dist Hks loop True] show ?thesis
      unfolding w'_def by (simp add: o1)
  next
    case False
    have "\<forall>x\<in>set ks. strip CHR ''/'' x \<noteq> s \<longrightarrow> k \<noteq> d @ ''/'' @ basename x"
      using H that by (auto simp: in_ks)
    with loop False have "map_of (objects w') k = map_of (objects w1) k"
      unfolding w'_def by (rule move_loop_frame)
    then show ?thesis using False that by (simp add: o1 in_ks)
  qed
  have b: "\<exists>k'. prefix s k' \<and> strip CHR ''/'' k' \<noteq> s \<and> basename k' = basename k
                 \<and> map_of (objects wc) k' \<noteq> None
                 \<and> map_of (objects w') (d @ ''/'' @ basename k) = map_of (objects wc) k'"
    if "prefix s k \<and> strip CHR ''/'' k \<noteq> s \<and> map_of (objects wc) k \<noteq> None" for k
  proof -
    have kin: "k \<in> set ks" and nm: "strip CHR ''/'' k \<noteq> s" using that by (simp_all add: in_ks)
    from move_loop_destinations [OF dist Hks loop kin nm]
    obtain k' where "k' \<in> set ks" "strip CHR ''/'' k' \<noteq> s" "basename k' = basename k"
      "map_of (objects w1) k' \<noteq> None"
      "map_of (objects w') (d @ ''/'' @ basename k) = map_of (objects w1) k'"
      unfolding w'_def by blast
    then show ?thesis unfolding o1 in_ks by blast
  qed
  have c: "map_of (objects w') j = map_of (objects wc) j"
    if "\<not> prefix s j \<and> (\<forall>k. prefix s k \<and> strip CHR ''/'' k \<noteq> s \<and> map_of (objects wc) k \<noteq> None
                     \<longrightarrow> j \<noteq> d @ ''/'' @ basename k)" for j
  proof -
    have "j \<notin> set ks" using that by (simp add: in_ks)
    moreover have "\<forall>x\<in>set ks. strip CHR ''/'' x \<noteq> s \<longrightarrow> j \<noteq> d @ ''/'' @ basename x"
      using that by (auto simp: in_ks)
    ultimately have "map_of (objects w') j = map_of (objects w1) j"
      unfolding w'_def using loop by (intro move_loop_frame)
    then show ?thesis by (simp add: o1)
  qed
  show ?thesis unfolding eq using a b c by blast
qed

lemma move_listing_history:
  assumes ok: "fst (objects_filter s (move_files_body self s d) wc) = None"
  shows "history (snd (objects_filter s (move_files_body self s d) wc))
           = history wc @ ListObjects s #
               concat (map (\<lambda>k. [CopyObject k (d @ ''/'' @ basename k), DeleteObject k])
                        (filter (\<lambda>k. strip CHR ''/'' k \<noteq> s) (matching_keys s wc)))"
proof -
  define w1 where "w1 = snd (send (ListObjects s) wc)"
  have un: "objects_filter s (move_files_body self s d) wc =
      and_then (send (ListObjects s) wc) (\<lambda>w'. for_each (move_files_body self s d) (matching_keys s w') w')"
    by (simp add: objects_filter_def)
  from and_then_ok [of "send (ListObjects s) wc"
      "\<lambda>w'. for_each (move_files_body self s d) (matching_keys s w') w'"] ok un
  have loop: "fst (for_each (move_files_body self s d) (matching_keys s w1) w1) = None"
    and eq: "snd (objects_filter s (move_files_body self s d) wc)
               = snd (for_each (move_files_body self s d) (matching_keys s w1) w1)"
    by (simp_all add: w1_def)
  have o1: "objects w1 = objects wc" by (simp add: w1_def send_List_objects)
  have h1: "history w1 = history wc @ [ListObjects s]" by (simp add: w1_def send_frame)
  have ks: "matching_keys s w1 = matching_keys s wc" by (simp add: matching_keys_def o1)
  show ?thesis
    using move_loop_exact_history [OF loop] by (simp add: eq h1 ks)
qed




text \<open>
  C10. Prefix selection is plain string-prefix matching. Take any object whose key merely
  starts with the normalised prefix: the key continues after the prefix with a character
  other than \<^verbatim>\<open>/\<close>, as \<^verbatim>\<open>foobar/x.csv\<close> does for \<^verbatim>\<open>foo\<close>. After a successful
  \<open>Bucket_clear_dir\<close> that object is gone. A successful \<open>move_files\<close>, with or without
  clearing the destination first, treats it like the objects under \<^verbatim>\<open>foo/\<close>, provided the
  clearing has left it in place: the requests made include its copy to the destination
  prefix under its base name followed by its deletion; and when no listed object is sent to
  a key that starts with the source prefix, the key is gone afterwards and the destination
  key holds the object of a listed key with the same base name, which is this very object
  when no other listed key shares its base name.
\<close>

theorem prefix_match_ignores_separator:
  assumes "map_of (objects w) key \<noteq> None"
    and "key = strip CHR ''/'' p @ c # rest" and "c \<noteq> CHR ''/''"
  shows "(fst (Bucket_clear_dir self p w) = None \<longrightarrow>
            map_of (objects (snd (Bucket_clear_dir self p w))) key = None)
       \<and> ((if clear then Bucket_clear_dir self dest w else (None, w)) = (None, wc)
           \<and> map_of (objects wc) key \<noteq> None
           \<and> fst (move_files self p dest clear w) = None
          \<longrightarrow> (\<exists>h1 h2. history (snd (move_files self p dest clear w)) =
                 h1 @ [CopyObject key (strip CHR ''/'' dest @ ''/'' @ basename key), DeleteObject key] @ h2))
       \<and> ((if clear then Bucket_clear_dir self dest w else (None, w)) = (None, wc)
           \<and> map_of (objects wc) key \<noteq> None
           \<and> fst (move_files self p dest clear w) = None
           \<and> (\<forall>k. map_of (objects wc) k \<noteq> None \<and> prefix (strip CHR ''/'' p) k
                    \<and> strip CHR ''/'' k \<noteq> strip CHR ''/'' p
                  \<longrightarrow> \<not> prefix (strip CHR ''/'' p) (strip CHR ''/'' dest @ ''/'' @ basename k))
          \<longrightarrow> map_of (objects (snd (move_files self p dest clear w))) key = None
              \<and> (\<exists>k'. prefix (strip CHR ''/'' p) k' \<and> basename k' = basename key
                     \<and> map_of (objects wc) k' \<noteq> None
                     \<and> map_of (objects (snd (move_files self p dest clear w)))
                          (strip CHR ''/'' dest @ ''/'' @ basename key) = map_of (objects wc) k')
              \<and> ((\<forall>k'. map_of (objects wc) k' \<noteq> None \<and> prefix (strip CHR ''/'' p) k'
                        \<and> basename k' = basename key \<longrightarrow> k' = key)
                  \<longrightarrow> map_of (objects (snd (move_files self p dest clear w)))
                        (strip CHR ''/'' dest @ ''/'' @ basename key) = map_of (objects w) key))"
proof (intro conjI; rule impI)
  define s where "s = strip CHR ''/'' p"
  have pre: "prefix s key" using assms(2) by (simp add: s_def)
  assume ok: "fst (Bucket_clear_dir self p w) = None"
  show "map_of (objects (snd (Bucket_clear_dir self p w))) key = None"
    unfolding Bucket_clear_dir_objects [OF ok] using pre
    by (auto simp: map_of_eq_None_iff s_def)
next
  define s where "s = strip CHR ''/'' p"
  define d where "d = strip CHR ''/'' dest"
  assume a: "(if clear then Bucket_clear_dir self dest w else (None, w)) = (None, wc)
           \<and> map_of (objects wc) key \<noteq> None
           \<and> fst (move_files self p dest clear w) = None"
  have eq: "move_files self p dest clear w = objects_filter s (move_files_body self s d) wc"
    unfolding s_def d_def using a by (intro move_files_after_clear) simp
  have ok: "fst (objects_filter s (move_files_body self s d) wc) = None" using a by (simp add: eq)
  have pre: "prefix s key" using assms(2) by (simp add: s_def)
  have nm: "strip CHR ''/'' key \<noteq> s"
    using strip_extension_neq [OF assms(3), of p rest] assms(2) by (simp add: s_def)
  have "key \<in> set (filter (\<lambda>k. strip CHR ''/'' k \<noteq> s) (matching_keys s wc))"
    using a pre nm by (simp add: set_matching_keys in_keys_iff)
  then obtain ys zs where "filter (\<lambda>k. strip CHR ''/'' k \<noteq> s) (matching_keys s wc) = ys @ key # zs"
    by (auto simp: in_set_conv_decomp)
  then have "history (snd (move_files self p dest clear w)) =
      (history wc @ ListObjects s #
         concat (map (\<lambda>k. [CopyObject k (d @ ''/'' @ basename k), DeleteObject k]) ys))
      @ [CopyObject key (d @ ''/'' @ basename key), DeleteObject key]
      @ concat (map (\<lambda>k. [CopyObject k (d @ ''/'' @ basename k), DeleteObject k]) zs)"
    unfolding eq move_listing_history [OF ok] by simp
  then show "\<exists>h1 h2. history (snd (move_files self p dest clear w)) =
                 h1 @ [CopyObject key (strip CHR ''/'' dest @ ''/'' @ basename key), DeleteObject key] @ h2"
    unfolding d_def by blast
next
  define s where "s = strip CHR ''/'' p"
  define d where "d = strip CHR ''/'' dest"
  define w' where "w' = snd (move_files self p dest clear w)"
  assume a: "(if clear then Bucket_clear_dir self dest w else (None, w)) = (None, wc)
           \<and> map_of (objects wc) key \<noteq> None
           \<and> fst (move_files self p dest clear w) = None
           \<and> (\<forall>k. map_of (objects wc) k \<noteq> None \<and> prefix (strip CHR ''/'' p) k
                    \<and> strip CHR ''/'' k \<noteq> strip CHR ''/'' p
                  \<longrightarrow> \<not> prefix (strip CHR ''/'' p) (strip CHR ''/'' dest @ ''/'' @ basename k))"
  have c: "(if clear then Bucket_clear_dir self dest w else (None, w)) = (None, wc)" using a by simp
  have eq: "move_files self p dest clear w = objects_filter s (move_files_body self s d) wc"
    unfolding s_def d_def using c by (rule move_files_after_clear)
  have ok: "fst (objects_filter s (move_files_body self s d) wc) = None" using a by (simp add: eq)
  have H: "\<forall>k. map_of (objects wc) k \<noteq> None \<and> prefix s k \<and> strip CHR ''/'' k \<noteq> s
            \<longrightarrow> \<not> prefix s (d @ ''/'' @ basename k)"
    using a by (simp add: s_def d_def)
  have pre: "prefix s key" using assms(2) by (simp add: s_def)
  have nm: "strip CHR ''/'' key \<noteq> s"
    using strip_extension_neq [OF assms(3), of p rest] assms(2) by (simp add: s_def)
  have pc: "map_of (objects wc) key \<noteq> None" using a by simp
  have same: "map_of (objects wc) key = map_of (objects w) key"
    using clear_phase_objects [OF c, of key] pc by (simp split: if_splits)
  note M = move_listing [OF ok H, folded eq, folded w'_def]
  have 1: "map_of (objects w') key = None" using M pre nm by simp
  have 2: "\<exists>k'. prefix s k' \<and> strip CHR ''/'' k' \<noteq> s \<and> basename k' = basename key
                 \<and> map_of (objects wc) k' \<noteq> None
                 \<and> map_of (objects w') (d @ ''/'' @ basename key) = map_of (objects wc) k'"
    using M pre nm pc by blast
  have 3: "map_of (objects w') (d @ ''/'' @ basename key) = map_of (objects w) key"
    if "\<forall>k'. map_of (objects wc) k' \<noteq> None \<and> prefix s k' \<and> basename k' = basename key \<longrightarrow> k' = key"
    using 2 that same by metis
  from 1 2 3 show "map_of (objects (snd (move_files self p dest clear w))) key = None
              \<and> (\<exists>k'. prefix (strip CHR ''/'' p) k' \<and> basename k' = basename key
                     \<and> map_of (objects wc) k' \<noteq> None
                     \<and> map_of (objects (snd (move_files self p dest clear w)))
                          (strip CHR ''/'' dest @ ''/'' @ basename key) = map_of (objects wc) k')
              \<and> ((\<forall>k'. map_of (objects wc) k' \<noteq> None \<and> prefix (strip CHR ''/'' p) k'
                        \<and> basename k' = basename key \<longrightarrow> k' = key)
                  \<longrightarrow> map_of (objects (snd (move_files self p dest clear w)))
                        (strip CHR ''/'' dest @ ''/'' @ basename key) = map_of (objects w) key)"
    unfolding w'_def s_def d_def by blast
qed

theorem prefix_match_witness:
  "map_of (objects (snd (Bucket_clear_dir example_bucket ''foo'' (quiet_world [] example_objects))))
       ''foobar/x.csv'' = None
   \<and> map_of (objects (snd (move_files example_bucket ''foo'' ''bar'' True (quiet_world [] example_objects))))
       ''foobar/x.csv'' = None
   \<and> map_of (objects (snd (move_files example_bucket ''foo'' ''bar'' True (quiet_world [] example_objects))))
       ''bar/x.csv'' = Some (csv_object ''2'')
   \<and> (\<exists>h1 h2. history (snd (move_files example_bucket ''foo'' ''bar'' True (quiet_world [] example_objects)))
         = h1 @ [CopyObject ''foobar/x.csv'' ''bar/x.csv'', DeleteObject ''foobar/x.csv''] @ h2)"
proof -
  define Q where "Q = quiet_world [] example_objects"
  define wc where "wc = snd (Bucket_clear_dir example_bucket ''bar'' Q)"
  have 1: "map_of (objects Q) ''foobar/x.csv'' \<noteq> None" unfolding Q_def by code_simp
  have 2: "''foobar/x.csv'' = strip CHR ''/'' ''foo'' @ CHR ''b'' # ''ar/x.csv''" by code_simp
  have 3: "CHR ''b'' \<noteq> CHR ''/''" by simp
  have 4: "fst (Bucket_clear_dir example_bucket ''foo'' Q) = None" unfolding Q_def by code_simp
  have "fst (Bucket_clear_dir example_bucket ''bar'' Q) = None" unfolding Q_def by code_simp
  then have 5: "(if True then Bucket_clear_dir example_bucket ''bar'' Q else (None, Q)) = (None, wc)"
    by (simp add: prod_eq_iff wc_def)
  have 6: "fst (move_files example_bucket ''foo'' ''bar'' True Q) = None" unfolding Q_def by code_simp
  have st: "strip CHR ''/'' ''foo'' = ''foo''" "strip CHR ''/'' ''bar'' = ''bar''"
    "basename ''foobar/x.csv'' = ''x.csv''" "basename ''foo/a.csv'' = ''a.csv''"
    "basename ''other/b.csv'' = ''b.csv''"
    by code_simp+
  have keys: "map fst (objects wc) = [''foo/a.csv'', ''foobar/x.csv'', ''other/b.csv'']"
    unfolding wc_def Q_def by code_simp
  have dom: "k = ''foo/a.csv'' \<or> k = ''foobar/x.csv'' \<or> k = ''other/b.csv''"
    if "map_of (objects wc) k \<noteq> None" for k
  proof -
    from that have "k \<in> set (map fst (objects wc))" by (simp add: map_of_eq_None_iff)
    then show ?thesis unfolding keys by simp
  qed
  have 7: "map_of (objects wc) ''foobar/x.csv'' \<noteq> None" unfolding wc_def Q_def by code_simp
  have 8: "\<forall>k. map_of (objects wc) k \<noteq> None \<and> prefix (strip CHR ''/'' ''foo'') k
                    \<and> strip CHR ''/'' k \<noteq> strip CHR ''/'' ''foo''
                  \<longrightarrow> \<not> prefix (strip CHR ''/'' ''foo'') (strip CHR ''/'' ''bar'' @ ''/'' @ basename k)"
    by (simp add: st)
  have 9: "\<forall>k'. map_of (objects wc) k' \<noteq> None \<and> prefix (strip CHR ''/'' ''foo'') k'
                        \<and> basename k' = basename ''foobar/x.csv'' \<longrightarrow> k' = ''foobar/x.csv''"
  proof (intro allI impI)
    fix k' assume a: "map_of (objects wc) k' \<noteq> None \<and> prefix (strip CHR ''/'' ''foo'') k'
                        \<and> basename k' = basename ''foobar/x.csv''"
    then have "k' = ''foo/a.csv'' \<or> k' = ''foobar/x.csv'' \<or> k' = ''other/b.csv''"
      using dom by blast
    then show "k' = ''foobar/x.csv''" using a by (auto simp: st)
  qed
  have 10: "map_of (objects Q) ''foobar/x.csv'' = Some (csv_object ''2'')" unfolding Q_def by code_simp
  note T = prefix_match_ignores_separator [OF 1 2 3, where self = example_bucket and clear = True
      and dest = "''bar''" and wc = wc]
  have a: "map_of (objects (snd (Bucket_clear_dir example_bucket ''foo'' Q))) ''foobar/x.csv'' = None"
    using T 4 by blast
  have b: "map_of (objects (snd (move_files example_bucket ''foo'' ''bar'' True Q))) ''foobar/x.csv'' = None
     \<and> map_of (objects (snd (move_files example_bucket ''foo'' ''bar'' True Q)))
          (strip CHR ''/'' ''bar'' @ ''/'' @ basename ''foobar/x.csv'') = map_of (objects Q) ''foobar/x.csv''"
    using T 5 6 7 8 9 by blast
  have c: "\<exists>h1 h2. history (snd (move_files example_bucket ''foo'' ''bar'' True Q))
         = h1 @ [CopyObject ''foobar/x.csv'' (strip CHR ''/'' ''bar'' @ ''/'' @ basename ''foobar/x.csv''),
                 DeleteObject ''foobar/x.csv''] @ h2"
    using T 5 6 7 by blast
  from a b c show ?thesis unfolding Q_def [symmetric] by (simp add: st 10)
qed

subsection \<open>Errors in a batch\<close>

text \<open>
  C7. An error inside a batch operation ends it at once, whatever the step: the listing
  request of \<open>Bucket_clear_dir\<close> or \<open>move_files\<close>; the clearing phase of
  \<open>upload_dir\<close> or \<open>move_files\<close>, after which nothing is uploaded or moved; or a unit of
  one of the three loops, reached after the units \<open>xs\<close> have been processed without
  error: a delete, an upload, or the copy or the delete of a move. In each case the
  operation returns that error with the state exactly as the failing request left it: what
  was done before stays done, and none of the remaining units \<open>ys\<close> is run. Here \<open>wc\<close>
  is the state after the clearing phase, \<open>wl\<close> the state after the listing, \<open>wx\<close> the
  state after the units \<open>xs\<close>, and \<open>w'\<close> and \<open>wu\<close> the state left by the failing step.
\<close>

theorem batch_aborts_at_first_error:
  assumes "s = strip CHR ''/'' src" and "d = strip CHR ''/'' dest"
  shows
    "(send (ListObjects d) w = (Some e, w') \<longrightarrow> Bucket_clear_dir self dest w = (Some e, w'))
   \<and> (send (ListObjects d) w = (None, wl) \<and> matching_keys d wl = xs @ u # ys
        \<and> for_each Bucket_clear_dir_body xs wl = (None, wx)
        \<and> send (DeleteObject u) (print (''deleting '' @ u) wx) = (Some e, wu)
      \<longrightarrow> Bucket_clear_dir self dest w = (Some e, wu))
   \<and> (Bucket_clear_dir self dest w = (Some e, w')
      \<longrightarrow> upload_dir self dir dest True w = (Some e, w')
          \<and> move_files self src dest True w = (Some e, w'))
   \<and> ((if clear then Bucket_clear_dir self dest w else (None, w)) = (None, wl)
        \<and> glob_star wl dir = xs @ u # ys
        \<and> for_each (upload_dir_body self d) xs wl = (None, wx)
        \<and> upload_file self u (d @ ''/'' @ basename u) wx = (Some e, wu)
      \<longrightarrow> upload_dir self dir dest clear w = (Some e, wu))
   \<and> ((if clear then Bucket_clear_dir self dest w else (None, w)) = (None, wc)
        \<and> send (ListObjects s) wc = (Some e, w')
      \<longrightarrow> move_files self src dest clear w = (Some e, w'))
   \<and> ((if clear then Bucket_clear_dir self dest w else (None, w)) = (None, wc)
        \<and> send (ListObjects s) wc = (None, wl) \<and> matching_keys s wl = xs @ u # ys
        \<and> for_each (move_files_body self s d) xs wl = (None, wx)
        \<and> strip CHR ''/'' u \<noteq> s
        \<and> (send (CopyObject u (d @ ''/'' @ basename u))
               (print (''copying '' @ bucket_name self @ ''/'' @ u) wx) = (Some e, wu)
           \<or> (\<exists>wm. send (CopyObject u (d @ ''/'' @ basename u))
                      (print (''copying '' @ bucket_name self @ ''/'' @ u) wx) = (None, wm)
                 \<and> send (DeleteObject u) wm = (Some e, wu)))
      \<longrightarrow> move_files self src dest clear w = (Some e, wu))"
proof (intro conjI impI)
  assume "send (ListObjects d) w = (Some e, w')"
  then show "Bucket_clear_dir self dest w = (Some e, w')"
    by (simp add: Bucket_clear_dir_unfold assms(2) [symmetric])
next
  assume a: "send (ListObjects d) w = (None, wl) \<and> matching_keys d wl = xs @ u # ys
        \<and> for_each Bucket_clear_dir_body xs wl = (None, wx)
        \<and> send (DeleteObject u) (print (''deleting '' @ u) wx) = (Some e, wu)"
  then have "Bucket_clear_dir_body u wx = (Some e, wu)" by (simp add: Bucket_clear_dir_body_def)
  with a have "for_each Bucket_clear_dir_body (xs @ u # ys) wl = (Some e, wu)"
    by (intro for_each_abort) simp_all
  with a show "Bucket_clear_dir self dest w = (Some e, wu)"
    by (simp add: Bucket_clear_dir_unfold assms(2) [symmetric])
next
  assume "Bucket_clear_dir self dest w = (Some e, w')"
  then show "upload_dir self dir dest True w = (Some e, w')"
    by (simp add: upload_dir_unfold)
next
  assume "Bucket_clear_dir self dest w = (Some e, w')"
  then show "move_files self src dest True w = (Some e, w')"
    by (simp add: move_files_unfold_clear)
next
  assume a: "(if clear then Bucket_clear_dir self dest w else (None, w)) = (None, wl)
        \<and> glob_star wl dir = xs @ u # ys
        \<and> for_each (upload_dir_body self d) xs wl = (None, wx)
        \<and> upload_file self u (d @ ''/'' @ basename u) wx = (Some e, wu)"
  then have "upload_dir_body self d u wx = (Some e, wu)" by (simp add: upload_dir_body_def Let_def)
  with a have "for_each (upload_dir_body self d) (xs @ u # ys) wl = (Some e, wu)"
    by (intro for_each_abort) simp_all
  moreover have "upload_dir self dir dest clear w = for_each (upload_dir_body self d) (glob_star wl dir) wl"
    unfolding upload_dir_unfold assms(2) [symmetric] using a by (cases clear) simp_all
  ultimately show "upload_dir self dir dest clear w = (Some e, wu)" using a by simp
next
  assume a: "(if clear then Bucket_clear_dir self dest w else (None, w)) = (None, wc)
        \<and> send (ListObjects s) wc = (Some e, w')"
  have "move_files self src dest clear w =
      and_then (send (ListObjects s) wc)
          (\<lambda>w'. for_each (move_files_body self s d) (matching_keys s w') w')"
    unfolding move_files_unfold_clear assms [symmetric] using a by (cases clear) simp_all
  then show "move_files self src dest clear w = (Some e, w')" using a by simp
next
  assume a: "(if clear then Bucket_clear_dir self dest w else (None, w)) = (None, wc)
        \<and> send (ListObjects s) wc = (None, wl) \<and> matching_keys s wl = xs @ u # ys
        \<and> for_each (move_files_body self s d) xs wl = (None, wx)
        \<and> strip CHR ''/'' u \<noteq> s
        \<and> (send (CopyObject u (d @ ''/'' @ basename u))
               (print (''copying '' @ bucket_name self @ ''/'' @ u) wx) = (Some e, wu)
           \<or> (\<exists>wm. send (CopyObject u (d @ ''/'' @ basename u))
                      (print (''copying '' @ bucket_name self @ ''/'' @ u) wx) = (None, wm)
                 \<and> send (DeleteObject u) wm = (Some e, wu)))"
  then have nm: "strip CHR ''/'' u \<noteq> s" by simp
  have "move_files_body self s d u wx = (Some e, wu)"
    unfolding move_files_body_unfold [OF nm] using a by auto
  with a have "for_each (move_files_body self s d) (xs @ u # ys) wl = (Some e, wu)"
    by (intro for_each_abort) simp_all
  moreover have "move_files self src dest clear w =
      and_then (send (ListObjects s) wc)
          (\<lambda>w'. for_each (move_files_body self s d) (matching_keys s w') w')"
    unfolding move_files_unfold_clear assms [symmetric] using a by (cases clear) simp_all
  ultimately show "move_files self src dest clear w = (Some e, wu)" using a by simp
qed

theorem batch_aborts_witness:
  "fst (Bucket_clear_dir example_bucket ''foo'' (faulty_world flat_files example_objects (ListObjects ''foo'')))
       = Some ClientError
   \<and> map fst (objects (snd (Bucket_clear_dir example_bucket ''foo''
         (faulty_world flat_files example_objects (ListObjects ''foo'')))))
       = [''foo/a.csv'', ''foobar/x.csv'', ''other/b.csv'']
   \<and> fst (Bucket_clear_dir example_bucket ''foo''
         (faulty_world flat_files example_objects (DeleteObject ''foobar/x.csv''))) = Some ClientError
   \<and> map fst (objects (snd (Bucket_clear_dir example_bucket ''foo''
         (faulty_world flat_files example_objects (DeleteObject ''foobar/x.csv'')))))
       = [''foobar/x.csv'', ''other/b.csv'']
   \<and> fst (upload_dir example_bucket ''in'' ''foo'' True
         (faulty_world flat_files example_objects (DeleteObject ''foobar/x.csv''))) = Some ClientError
   \<and> map fst (objects (snd (upload_dir example_bucket ''in'' ''foo'' True
         (faulty_world flat_files example_objects (DeleteObject ''foobar/x.csv'')))))
       = [''foobar/x.csv'', ''other/b.csv'']
   \<and> fst (move_files example_bucket ''other'' ''foo'' True
         (faulty_world flat_files example_objects (DeleteObject ''foobar/x.csv''))) = Some ClientError
   \<and> map fst (objects (snd (move_files example_bucket ''other'' ''foo'' True
         (faulty_world flat_files example_objects (DeleteObject ''foobar/x.csv'')))))
       = [''foobar/x.csv'', ''other/b.csv'']
   \<and> fst (upload_dir example_bucket ''out'' ''p'' False (quiet_world example_files []))
       = Some IsADirectoryError
   \<and> map fst (objects (snd (upload_dir example_bucket ''out'' ''p'' False (quiet_world example_files []))))
       = [''p/a.csv'']
   \<and> fst (move_files example_bucket ''foo'' ''bar'' False
         (faulty_world flat_files example_objects (ListObjects ''foo''))) = Some ClientError
   \<and> map fst (objects (snd (move_files example_bucket ''foo'' ''bar'' False
         (faulty_world flat_files example_objects (ListObjects ''foo'')))))
       = [''foo/a.csv'', ''foobar/x.csv'', ''other/b.csv'']
   \<and> fst (move_files example_bucket ''foo'' ''bar'' False
         (faulty_world flat_files example_objects (CopyObject ''foobar/x.csv'' ''bar/x.csv'')))
       = Some ClientError
   \<and> map fst (objects (snd (move_files example_bucket ''foo'' ''bar'' False
         (faulty_world flat_files example_objects (CopyObject ''foobar/x.csv'' ''bar/x.csv'')))))
       = [''foobar/x.csv'', ''other/b.csv'', ''bar/a.csv'']
   \<and> fst (move_files example_bucket ''foo'' ''bar'' False
         (faulty_world flat_files example_objects (DeleteObject ''foobar/x.csv'')))
       = Some ClientError
   \<and> map fst (objects (snd (move_files example_bucket ''foo'' ''bar'' False
         (faulty_world flat_files example_objects (DeleteObject ''foobar/x.csv'')))))
       = [''foobar/x.csv'', ''other/b.csv'', ''bar/a.csv'', ''bar/x.csv'']"
proof -
  define L where "L = faulty_world flat_files example_objects (ListObjects ''foo'')"
  define D where "D = faulty_world flat_files example_objects (DeleteObject ''foobar/x.csv'')"
  define C where "C = faulty_world flat_files example_objects (CopyObject ''foobar/x.csv'' ''bar/x.csv'')"
  define Q where "Q = quiet_world example_files []"
  have foo: "''foo'' = strip CHR ''/'' ''foo''" and bar: "''bar'' = strip CHR ''/'' ''bar''"
    and other: "''other'' = strip CHR ''/'' ''other''" and p: "''p'' = strip CHR ''/'' ''p''"
    by code_simp+

  have list_refused: "fst (Bucket_clear_dir example_bucket ''foo'' L) = Some ClientError
     \<and> map fst (objects (snd (Bucket_clear_dir example_bucket ''foo'' L)))
         = [''foo/a.csv'', ''foobar/x.csv'', ''other/b.csv'']
     \<and> fst (move_files example_bucket ''foo'' ''bar'' False L) = Some ClientError
     \<and> map fst (objects (snd (move_files example_bucket ''foo'' ''bar'' False L)))
         = [''foo/a.csv'', ''foobar/x.csv'', ''other/b.csv'']"
  proof -
    define w' where "w' = snd (send (ListObjects ''foo'') L)"
    have "fst (send (ListObjects ''foo'') L) = Some ClientError" unfolding L_def by code_simp
    then have l: "send (ListObjects ''foo'') L = (Some ClientError, w')"
      by (simp add: prod_eq_iff w'_def)
    have 1: "Bucket_clear_dir example_bucket ''foo'' L = (Some ClientError, w')"
      using batch_aborts_at_first_error [OF foo foo, where w = L and e = ClientError and w' = w'
          and self = example_bucket] l
      by simp
    have 2: "move_files example_bucket ''foo'' ''bar'' False L = (Some ClientError, w')"
      using batch_aborts_at_first_error [OF foo bar, where w = L and e = ClientError and w' = w'
          and self = example_bucket and clear = False and wc = L] l
      by simp
    have "map fst (objects w') = [''foo/a.csv'', ''foobar/x.csv'', ''other/b.csv'']"
      unfolding w'_def L_def by code_simp
    with 1 2 show ?thesis by simp
  qed

  have clear_phase: "fst (Bucket_clear_dir example_bucket ''foo'' D) = Some ClientError
     \<and> map fst (objects (snd (Bucket_clear_dir example_bucket ''foo'' D))) = [''foobar/x.csv'', ''other/b.csv'']
     \<and> fst (upload_dir example_bucket ''in'' ''foo'' True D) = Some ClientError
     \<and> map fst (objects (snd (upload_dir example_bucket ''in'' ''foo'' True D)))
         = [''foobar/x.csv'', ''other/b.csv'']
     \<and> fst (move_files example_bucket ''other'' ''foo'' True D) = Some ClientError
     \<and> map fst (objects (snd (move_files example_bucket ''other'' ''foo'' True D)))
         = [''foobar/x.csv'', ''other/b.csv'']"
  proof -
    define w0 where "w0 = snd (send (ListObjects ''foo'') D)"
    define w1 where "w1 = snd (for_each Bucket_clear_dir_body [''foo/a.csv''] w0)"
    define w2 where "w2 = snd (send (DeleteObject ''foobar/x.csv'') (print ''deleting foobar/x.csv'' w1))"
    have "fst (send (ListObjects ''foo'') D) = None" unfolding D_def by code_simp
    then have l: "send (ListObjects ''foo'') D = (None, w0)" by (simp add: prod_eq_iff w0_def)
    have keys: "matching_keys ''foo'' w0 = [''foo/a.csv''] @ ''foobar/x.csv'' # []"
      unfolding w0_def D_def by code_simp
    have "fst (for_each Bucket_clear_dir_body [''foo/a.csv''] w0) = None"
      unfolding w0_def D_def by code_simp
    then have a1: "for_each Bucket_clear_dir_body [''foo/a.csv''] w0 = (None, w1)"
      by (simp add: prod_eq_iff w1_def)
    have "fst (send (DeleteObject ''foobar/x.csv'') (print ''deleting foobar/x.csv'' w1)) = Some ClientError"
      unfolding w1_def w0_def D_def by code_simp
    then have a2: "send (DeleteObject ''foobar/x.csv'') (print ''deleting foobar/x.csv'' w1)
        = (Some ClientError, w2)"
      by (simp add: prod_eq_iff w2_def)
    have 1: "Bucket_clear_dir example_bucket ''foo'' D = (Some ClientError, w2)"
      using batch_aborts_at_first_error [OF foo foo, where w = D and e = ClientError and wl = w0
          and wx = w1 and wu = w2 and xs = "[''foo/a.csv'']" and u = "''foobar/x.csv''" and ys = "[]"
          and self = example_bucket] l keys a1 a2
      by simp
    have 2: "upload_dir example_bucket ''in'' ''foo'' True D = (Some ClientError, w2)
        \<and> move_files example_bucket ''other'' ''foo'' True D = (Some ClientError, w2)"
      using batch_aborts_at_first_error [OF other foo, where w = D and e = ClientError and w' = w2
          and self = example_bucket and dir = "''in''"] 1
      by simp
    have "map fst (objects w2) = [''foobar/x.csv'', ''other/b.csv'']"
      unfolding w2_def w1_def w0_def D_def by code_simp
    with 1 2 show ?thesis by simp
  qed

  have upload: "fst (upload_dir example_bucket ''out'' ''p'' False Q) = Some IsADirectoryError
     \<and> map fst (objects (snd (upload_dir example_bucket ''out'' ''p'' False Q))) = [''p/a.csv'']"
  proof -
    define w1 where "w1 = snd (for_each (upload_dir_body example_bucket ''p'') [''out/a.csv''] Q)"
    define w2 where "w2 = snd (upload_file example_bucket ''out/b'' ''p/b'' w1)"
    have "fst (for_each (upload_dir_body example_bucket ''p'') [''out/a.csv''] Q) = None"
      unfolding Q_def by code_simp
    then have a1: "for_each (upload_dir_body example_bucket ''p'') [''out/a.csv''] Q = (None, w1)"
      by (simp add: prod_eq_iff w1_def)
    have "fst (upload_file example_bucket ''out/b'' ''p/b'' w1) = Some IsADirectoryError"
      unfolding w1_def Q_def by code_simp
    then have a2: "upload_file example_bucket ''out/b'' ''p/b'' w1 = (Some IsADirectoryError, w2)"
      by (simp add: prod_eq_iff w2_def)
    have b: "basename ''out/b'' = ''b''" by code_simp
    have g: "glob_star Q ''out'' = [''out/a.csv''] @ ''out/b'' # [''out/c.csv'']"
      unfolding Q_def by code_simp
    have 1: "upload_dir example_bucket ''out'' ''p'' False Q = (Some IsADirectoryError, w2)"
      using batch_aborts_at_first_error [OF foo p, where w = Q and e = IsADirectoryError and wl = Q
          and wx = w1 and wu = w2 and xs = "[''out/a.csv'']" and u = "''out/b''" and ys = "[''out/c.csv'']"
          and self = example_bucket and dir = "''out''" and clear = False] g a1 a2
      by (simp add: b)
    have "map fst (objects w2) = [''p/a.csv'']"
      unfolding w2_def w1_def Q_def by code_simp
    with 1 show ?thesis by simp
  qed

  have copy_refused: "fst (move_files example_bucket ''foo'' ''bar'' False C) = Some ClientError
     \<and> map fst (objects (snd (move_files example_bucket ''foo'' ''bar'' False C)))
         = [''foobar/x.csv'', ''other/b.csv'', ''bar/a.csv'']"
  proof -
    define w0 where "w0 = snd (send (ListObjects ''foo'') C)"
    define w1 where "w1 = snd (for_each (move_files_body example_bucket ''foo'' ''bar'') [''foo/a.csv''] w0)"
    define w2 where "w2 = snd (send (CopyObject ''foobar/x.csv'' ''bar/x.csv'')
        (print ''copying ak-energy-data/foobar/x.csv'' w1))"
    have "fst (send (ListObjects ''foo'') C) = None" unfolding C_def by code_simp
    then have l: "send (ListObjects ''foo'') C = (None, w0)" by (simp add: prod_eq_iff w0_def)
    have keys: "matching_keys ''foo'' w0 = [''foo/a.csv''] @ ''foobar/x.csv'' # []"
      unfolding w0_def C_def by code_simp
    have "fst (for_each (move_files_body example_bucket ''foo'' ''bar'') [''foo/a.csv''] w0) = None"
      unfolding w0_def C_def by code_simp
    then have a1: "for_each (move_files_body example_bucket ''foo'' ''bar'') [''foo/a.csv''] w0 = (None, w1)"
      by (simp add: prod_eq_iff w1_def)
    have "fst (send (CopyObject ''foobar/x.csv'' ''bar/x.csv'')
        (print ''copying ak-energy-data/foobar/x.csv'' w1)) = Some ClientError"
      unfolding w1_def w0_def C_def by code_simp
    then have a2: "send (CopyObject ''foobar/x.csv'' ''bar/x.csv'')
        (print ''copying ak-energy-data/foobar/x.csv'' w1) = (Some ClientError, w2)"
      by (simp add: prod_eq_iff w2_def)
    have b: "basename ''foobar/x.csv'' = ''x.csv''" "bucket_name example_bucket = ''ak-energy-data''"
      "strip CHR ''/'' ''foobar/x.csv'' \<noteq> ''foo''"
      by code_simp+
    have 1: "move_files example_bucket ''foo'' ''bar'' False C = (Some ClientError, w2)"
      using batch_aborts_at_first_error [OF foo bar, where w = C and e = ClientError and wl = w0
          and wx = w1 and wu = w2 and xs = "[''foo/a.csv'']" and u = "''foobar/x.csv''" and ys = "[]"
          and self = example_bucket and clear = False and wc = C] l keys a1 a2 b
      by simp
    have "map fst (objects w2) = [''foobar/x.csv'', ''other/b.csv'', ''bar/a.csv'']"
      unfolding w2_def w1_def w0_def C_def by code_simp
    with 1 show ?thesis by simp
  qed

  have delete_refused: "fst (move_files example_bucket ''foo'' ''bar'' False D) = Some ClientError
     \<and> map fst (objects (snd (move_files example_bucket ''foo'' ''bar'' False D)))
         = [''foobar/x.csv'', ''other/b.csv'', ''bar/a.csv'', ''bar/x.csv'']"
  proof -
    define w0 where "w0 = snd (send (ListObjects ''foo'') D)"
    define w1 where "w1 = snd (for_each (move_files_body example_bucket ''foo'' ''bar'') [''foo/a.csv''] w0)"
    define w3 where "w3 = snd (send (CopyObject ''foobar/x.csv'' ''bar/x.csv'')
        (print ''copying ak-energy-data/foobar/x.csv'' w1))"
    define w2 where "w2 = snd (send (DeleteObject ''foobar/x.csv'') w3)"
    have "fst (send (ListObjects ''foo'') D) = None" unfolding D_def by code_simp
    then have l: "send (ListObjects ''foo'') D = (None, w0)" by (simp add: prod_eq_iff w0_def)
    have keys: "matching_keys ''foo'' w0 = [''foo/a.csv''] @ ''foobar/x.csv'' # []"
      unfolding w0_def D_def by code_simp
    have "fst (for_each (move_files_body example_bucket ''foo'' ''bar'') [''foo/a.csv''] w0) = None"
      unfolding w0_def D_def by code_simp
    then have a1: "for_each (move_files_body example_bucket ''foo'' ''bar'') [''foo/a.csv''] w0 = (None, w1)"
      by (simp add: prod_eq_iff w1_def)
    have "fst (send (CopyObject ''foobar/x.csv'' ''bar/x.csv'')
        (print ''copying ak-energy-data/foobar/x.csv'' w1)) = None"
      unfolding w1_def w0_def D_def by code_simp
    then have a2: "send (CopyObject ''foobar/x.csv'' ''bar/x.csv'')
        (print ''copying ak-energy-data/foobar/x.csv'' w1) = (None, w3)"
      by (simp add: prod_eq_iff w3_def)
    have "fst (send (DeleteObject ''foobar/x.csv'') w3) = Some ClientError"
      unfolding w3_def w1_def w0_def D_def by code_simp
    then have a3: "send (DeleteObject ''foobar/x.csv'') w3 = (Some ClientError, w2)"
      by (simp add: prod_eq_iff w2_def)
    have b: "basename ''foobar/x.csv'' = ''x.csv''" "bucket_name example_bucket = ''ak-energy-data''"
      "strip CHR ''/'' ''foobar/x.csv'' \<noteq> ''foo''"
      by code_simp+
    have 1: "move_files example_bucket ''foo'' ''bar'' False D = (Some ClientError, w2)"
      using batch_aborts_at_first_error [OF foo bar, where w = D and e = ClientError and wl = w0
          and wx = w1 and wu = w2 and xs = "[''foo/a.csv'']" and u = "''foobar/x.csv''" and ys = "[]"
          and self = example_bucket and clear = False and wc = D] l keys a1 a2 a3 b
      by simp
    have "map fst (objects w2) = [''foobar/x.csv'', ''other/b.csv'', ''bar/a.csv'', ''bar/x.csv'']"
      unfolding w2_def w3_def w1_def w0_def D_def by code_simp
    with 1 show ?thesis by simp
  qed

  from list_refused clear_phase upload copy_refused delete_refused
  show ?thesis unfolding L_def D_def C_def Q_def by simp
qed

subsection \<open>Clearing a local directory\<close>

text \<open>
  When the directory part of the pattern has no metacharacter, a call that returns without
  error has removed exactly the regular files among the listed entries, which are the names
  in the directory that do not start with a dot; directories, names starting with a dot and
  every path outside the directory are left as they were. Without a refused system call
  the loop does return without error.
\<close>

lemma clear_dir_body_files:
  assumes "fst (clear_dir_body fn w) = None"
  shows "map_of (files (snd (clear_dir_body fn w)))
           = (if os_path_isfile w fn then (map_of (files w))(fn := None) else map_of (files w))"
  using assms
  by (auto simp: clear_dir_body_def os_remove_def os_path_isfile_def print_def delete_conv'
      split: option.splits node.splits if_splits)

lemma clear_loop_files:
  assumes "distinct ps" and "fst (for_each clear_dir_body ps w) = None"
  shows "map_of (files (snd (for_each clear_dir_body ps w))) q
           = (if q \<in> set ps \<and> os_path_isfile w q then None else map_of (files w) q)"
  using assms
proof (induction ps arbitrary: w)
  case Nil
  show ?case by simp
next
  case (Cons p ps)
  define w1 where "w1 = snd (clear_dir_body p w)"
  from for_each_Cons_ok [OF Cons.prems(2)]
  have ok: "fst (clear_dir_body p w) = None"
    and rest: "fst (for_each clear_dir_body ps w1) = None"
    and eq: "for_each clear_dir_body (p # ps) w = for_each clear_dir_body ps w1"
    by (simp_all add: w1_def)
  have dist: "distinct ps" and pnot: "p \<notin> set ps" using Cons.prems(1) by simp_all
  have m1: "map_of (files w1) = (if os_path_isfile w p then (map_of (files w))(p := None) else map_of (files w))"
    unfolding w1_def by (rule clear_dir_body_files [OF ok])
  have other: "map_of (files w1) x = map_of (files w) x" if "x \<noteq> p" for x
    using that by (simp add: m1)
  have isf: "os_path_isfile w1 x = os_path_isfile w x" if "x \<noteq> p" for x
    using other [OF that] by (simp add: os_path_isfile_def)
  show ?case
  proof (cases "q = p")
    case True
    then have "q \<notin> set ps" using pnot by simp
    then have "map_of (files (snd (for_each clear_dir_body ps w1))) q = map_of (files w1) q"
      using Cons.IH [OF dist rest] by simp
    then show ?thesis unfolding eq using True
      by (auto simp: m1 os_path_isfile_def split: option.splits node.splits)
  next
    case False
    show ?thesis unfolding eq Cons.IH [OF dist rest] using False other [OF False] isf [OF False]
      by simp
  qed
qed

lemma distinct_glob_star_literal:
  assumes "\<not> has_magic (glob_dirname p)"
  shows "distinct (glob_star w p)"
  unfolding glob_star_literal [OF assms]
proof (subst distinct_map, intro conjI)
  show "distinct (glob1 w (glob_dirname p))" by (rule distinct_glob1)
  show "inj_on (os_path_join (glob_dirname p)) (set (glob1 w (glob_dirname p)))"
  proof (rule inj_onI)
    fix x y assume "x \<in> set (glob1 w (glob_dirname p))" "y \<in> set (glob1 w (glob_dirname p))"
      and e: "os_path_join (glob_dirname p) x = os_path_join (glob_dirname p) y"
    then have "CHR ''/'' \<notin> set x" "CHR ''/'' \<notin> set y" by (simp_all add: set_glob1)
    from join_inject [OF this] e show "x = y" by simp
  qed
qed

lemma clear_dir_literal_path:
  assumes "\<not> has_magic (glob_dirname dir_path)" and "fst (clear_dir dir_path w) = None"
  shows "map_of (files (snd (clear_dir dir_path w))) q
           = (if (\<exists>n\<in>set (glob1 w (glob_dirname dir_path)). q = os_path_join (glob_dirname dir_path) n)
                  \<and> os_path_isfile w q
              then None else map_of (files w) q)"
proof -
  have "map_of (files (snd (clear_dir dir_path w))) q
      = (if q \<in> set (glob_star w dir_path) \<and> os_path_isfile w q then None else map_of (files w) q)"
    unfolding clear_dir_def
    using distinct_glob_star_literal [OF assms(1)] assms(2) [unfolded clear_dir_def]
    by (rule clear_loop_files)
  moreover have "q \<in> set (glob_star w dir_path)
      \<longleftrightarrow> (\<exists>n\<in>set (glob1 w (glob_dirname dir_path)). q = os_path_join (glob_dirname dir_path) n)"
    unfolding glob_star_literal [OF assms(1)] by auto
  ultimately show ?thesis by simp
qed

lemma clear_dir_quiet_succeeds:
  assumes "\<forall>c. \<not> denies w c"
  shows "fst (for_each clear_dir_body ps w) = None"
  using assms
proof (induction ps arbitrary: w)
  case Nil
  show ?case by simp
next
  case (Cons p ps)
  have ok: "fst (clear_dir_body p w) = None"
    using Cons.prems
    by (auto simp: clear_dir_body_def os_remove_def os_path_isfile_def print_def
        split: option.splits node.splits)
  have "denies (snd (clear_dir_body p w)) = denies w"
    by (auto simp: clear_dir_body_def os_remove_def os_path_isfile_def print_def
        split: option.splits node.splits)
  then have "fst (for_each clear_dir_body ps (snd (clear_dir_body p w))) = None"
    using Cons.IH Cons.prems by simp
  with ok show ?case by (cases "clear_dir_body p w") simp
qed

text \<open>
  C8. The docstring promises that the files found in the directory \<^verbatim>\<open>dir_path\<close> are
  deleted. The code hands \<^verbatim>\<open>dir_path\<close> to \<^verbatim>\<open>glob\<close> unescaped, so a directory name with a
  metacharacter is read as a pattern: \<^verbatim>\<open>clear_dir('[a]')\<close> leaves the file \<^verbatim>\<open>x.txt\<close> of
  the directory \<^verbatim>\<open>[a]\<close> in place and deletes the file \<^verbatim>\<open>y.txt\<close> of the directory
  \<^verbatim>\<open>a\<close> instead.
\<close>

theorem clear_dir_reads_path_as_pattern:
  "fst (clear_dir ''[a]'' bracket_world) = None
   \<and> files (snd (clear_dir ''[a]'' bracket_world))
       = [(''[a]'', Dir), (''[a]/x.txt'', File ''1''), (''a'', Dir)]
   \<and> stdout (snd (clear_dir ''[a]'' bracket_world)) = [''deleting a/y.txt'']"
  by code_simp

end
